theory Spec2Isabelle
  imports Main
begin

section \<open>The C++ integer types\<close>

text \<open>
  The header computes with \<open>int\<close> (32 bits) and, in the 2-D entry point, with
  \<open>long long\<close> (64 bits). A value of either type is modelled as a mathematical
  integer in the range of the type, and every operation whose result can leave the
  range is followed by the two's complement wrap-around that the usual targets
  produce (signed overflow has no defined behaviour in the C++ standard).
  Division and remainder truncate towards zero, as C++ does.
\<close>

definition INT_MAX :: int where
  "INT_MAX = 2147483647"

definition INT_MIN :: int where
  "INT_MIN = - 2147483648"

definition is_int :: "int \<Rightarrow> bool" where
  "is_int v \<longleftrightarrow> INT_MIN \<le> v \<and> v \<le> INT_MAX"

definition wrap_int :: "int \<Rightarrow> int" where
  "wrap_int v = (v + 2147483648) mod 4294967296 - 2147483648"

definition wrap_ll :: "int \<Rightarrow> int" where
  "wrap_ll v = (v + 9223372036854775808) mod 18446744073709551616 - 9223372036854775808"

definition c_div :: "int \<Rightarrow> int \<Rightarrow> int" where
  "c_div a b = (if (a < 0) = (b < 0) then \<bar>a\<bar> div \<bar>b\<bar> else - (\<bar>a\<bar> div \<bar>b\<bar>))"

definition c_mod :: "int \<Rightarrow> int \<Rightarrow> int" where
  "c_mod a b = a - b * c_div a b"

section \<open>Splitting a range: \<open>sm_split_range\<close>\<close>

text \<open>
  The loop \<open>for (int t = 0; t < numPieces; ++t)\<close> of \<open>sm_split_range\<close>
  (\<open>simple_mt::split_range\<close> in the second copy of the header is the same function).
  The pieces are returned in the order in which \<open>emplace_back\<close> appends them.
  The counter \<open>t\<close> stays below \<open>numPieces\<close>, so \<open>++t\<close> cannot overflow.
\<close>

function split_loop :: "int \<Rightarrow> int \<Rightarrow> int \<Rightarrow> int \<Rightarrow> int \<Rightarrow> (int \<times> int) list" where
  "split_loop numPieces base rem t cur =
     (if t < numPieces then
        (let add = wrap_int (base + (if t < rem then 1 else 0));
             s = cur;
             e = wrap_int (cur + add)
         in (s, e) # split_loop numPieces base rem (t + 1) e)
      else [])"
  by pat_completeness auto
termination
  by (relation "measure (\<lambda>(numPieces, base, rem, t, cur). nat (numPieces - t))") auto

declare split_loop.simps [simp del]

definition sm_split_range :: "int \<Rightarrow> int \<Rightarrow> int \<Rightarrow> (int \<times> int) list" where
  "sm_split_range low high numPieces =
     (if numPieces \<le> 0 then []
      else if low \<ge> high then replicate (nat numPieces) (low, low)
      else
        (let total = wrap_int (high - low);
             base = c_div total numPieces;
             rem = c_mod total numPieces
         in split_loop numPieces base rem 0 low))"

section \<open>What a thread does\<close>

text \<open>
  The user's function is a \<open>std::function\<close>; the engine only sees whether a call
  returns or throws, so it is modelled as a function from the index to
  \<open>None\<close> (the call returns) or \<open>Some x\<close> (the call throws \<open>x\<close>).
  A loop over a range yields the calls it made, in order, and how it ended.
\<close>

datatype 'x halt = Completed | Threw 'x | DivTrap

text \<open>
  \<open>for (int i = start_idx; i < end_idx; ++i) (*f)(i);\<close>
  (\<open>sm_thread_entry_1d\<close> and the calling thread's piece in \<open>parallel_for\<close>).
\<close>

function run_1d :: "(int \<Rightarrow> 'x option) \<Rightarrow> int \<Rightarrow> int \<Rightarrow> int list \<times> 'x halt" where
  "run_1d f i e =
     (if i < e then
        (case f i of
           Some x \<Rightarrow> ([i], Threw x)
         | None \<Rightarrow> (case run_1d f (i + 1) e of (cs, r) \<Rightarrow> (i # cs, r)))
      else ([], Completed))"
  by pat_completeness auto
termination
  by (relation "measure (\<lambda>(f, i, e). nat (e - i))") auto

declare run_1d.simps [simp del]

text \<open>
  The index mapping of the 2-D loops: \<open>i = flat / w + low1; j = flat % w + low2\<close>
  is \<open>unflatten\<close>. An integer division by zero, or of \<open>INT_MIN\<close> by \<open>-1\<close>,
  traps: \<open>flat_to_ij\<close> is \<open>None\<close> there, and the mapping elsewhere.
\<close>

definition unflatten :: "int \<Rightarrow> int \<Rightarrow> int \<Rightarrow> int \<Rightarrow> int \<times> int" where
  "unflatten w low1 low2 flat =
     (let i = wrap_int (c_div flat w + low1);
          j = wrap_int (c_mod flat w + low2)
      in (i, j))"

definition flat_to_ij :: "int \<Rightarrow> int \<Rightarrow> int \<Rightarrow> int \<Rightarrow> (int \<times> int) option" where
  "flat_to_ij w low1 low2 flat =
     (if w = 0 \<or> (w = - 1 \<and> flat = INT_MIN) then None
      else Some (unflatten w low1 low2 flat))"

text \<open>
  \<open>for (int flat = s; flat < e; ++flat) { ...; (*f)(i, j); }\<close>
  (\<open>sm_thread_entry_2d\<close> and the calling thread's piece in the 2-D \<open>parallel_for\<close>).
\<close>

function run_2d ::
  "(int \<Rightarrow> int \<Rightarrow> 'x option) \<Rightarrow> int \<Rightarrow> int \<Rightarrow> int \<Rightarrow> int \<Rightarrow> int \<Rightarrow> (int \<times> int) list \<times> 'x halt" where
  "run_2d f low1 low2 w flat e =
     (if flat < e then
        (case flat_to_ij w low1 low2 flat of
           None \<Rightarrow> ([], DivTrap)
         | Some ij \<Rightarrow>
             (case f (fst ij) (snd ij) of
                Some x \<Rightarrow> ([ij], Threw x)
              | None \<Rightarrow> (case run_2d f low1 low2 w (flat + 1) e of (cs, r) \<Rightarrow> (ij # cs, r))))
      else ([], Completed))"
  by pat_completeness auto
termination
  by (relation "measure (\<lambda>(f, low1, low2, w, flat, e). nat (e - flat))") auto

declare run_2d.simps [simp del]

text \<open>
  \<open>SM_ThreadArg\<close>, the argument handed to a worker thread. The constructor sets
  the three geometry fields to 0; the 2-D entry point then assigns them.
\<close>

record 'f SM_ThreadArg =
  arg_lambda :: 'f
  arg_start_idx :: int
  arg_end_idx :: int
  arg_low1 :: int
  arg_low2 :: int
  arg_width2 :: int

definition SM_ThreadArg :: "'f \<Rightarrow> int \<Rightarrow> int \<Rightarrow> 'f SM_ThreadArg" where
  "SM_ThreadArg l s e =
     \<lparr>arg_lambda = l, arg_start_idx = s, arg_end_idx = e,
      arg_low1 = 0, arg_low2 = 0, arg_width2 = 0\<rparr>"

text \<open>
  A worker thread as the rest of the program can see it: the thread's identity (the
  number of the \<open>pthread_create\<close> that made it), the piece it was given, the
  calls of the user's function it makes when it runs to its end, and whether the
  \<open>catch (...)\<close> of the entry function caught an exception (\<open>Threw x\<close>: caught
  and dropped, the thread function still returns \<open>nullptr\<close>).
\<close>

record ('a, 'x) worker =
  w_tid :: int
  w_start :: int
  w_end :: int
  w_calls :: "'a list"
  w_halt :: "'x halt"

definition sm_thread_entry_1d :: "int \<Rightarrow> (int \<Rightarrow> 'x option) SM_ThreadArg \<Rightarrow> (int, 'x) worker" where
  "sm_thread_entry_1d tid arg =
     (case run_1d (arg_lambda arg) (arg_start_idx arg) (arg_end_idx arg) of
        (cs, r) \<Rightarrow>
          \<lparr>w_tid = tid, w_start = arg_start_idx arg, w_end = arg_end_idx arg,
           w_calls = cs, w_halt = r\<rparr>)"

definition sm_thread_entry_2d ::
  "int \<Rightarrow> (int \<Rightarrow> int \<Rightarrow> 'x option) SM_ThreadArg \<Rightarrow> (int \<times> int, 'x) worker" where
  "sm_thread_entry_2d tid arg =
     (case run_2d (arg_lambda arg) (arg_low1 arg) (arg_low2 arg) (arg_width2 arg)
             (arg_start_idx arg) (arg_end_idx arg) of
        (cs, r) \<Rightarrow>
          \<lparr>w_tid = tid, w_start = arg_start_idx arg, w_end = arg_end_idx arg,
           w_calls = cs, w_halt = r\<rparr>)"

section \<open>The fork-join executor\<close>

text \<open>
  What the calling thread does, in program order: a successful \<open>pthread_create\<close>
  (numbered from 0), a failed one, a call of the user's function, a
  \<open>pthread_join\<close>, and the line with the elapsed time printed at the end
  (the time itself is not modelled).
\<close>

datatype 'a event = Create int | CreateFailed int | Call 'a | Join int | Report

text \<open>
  How a call of \<open>parallel_for\<close> ends: it returns, an exception leaves it, or the
  calling thread traps. \<open>StartupFailure\<close> is the
  \<open>std::runtime_error("pthread_create failed ...")\<close>, \<open>OverflowError\<close> the
  \<open>std::runtime_error("2D range too large")\<close>, and \<open>CallbackFailure x\<close> the
  exception \<open>x\<close> of the user's function.
\<close>

datatype 'x error = StartupFailure | OverflowError | CallbackFailure 'x

datatype 'x exit = Returns | Throws "'x error" | Traps

record ('a, 'x) run =
  caller :: "'a event list"
  workers :: "('a, 'x) worker list"
  exit :: "'x exit"

text \<open>
  The spawning loop \<open>for (int t = 0; t < to_create; ++t)\<close>, common to the two entry
  points. \<open>pthread_create_ok t\<close> says whether the \<open>t\<close>-th \<open>pthread_create\<close> of
  the call returns 0. The result is the calling thread's events from \<open>t\<close> on,
  the vector \<open>tids\<close> when the loop is left, and whether it was left by the
  \<open>throw\<close>.
\<close>

function spawn_loop :: "(int \<Rightarrow> bool) \<Rightarrow> int \<Rightarrow> int \<Rightarrow> int list \<Rightarrow> 'a event list \<times> int list \<times> bool" where
  "spawn_loop pthread_create_ok to_create t tids =
     (if t < to_create then
        (if \<not> pthread_create_ok t then (CreateFailed t # map Join tids, tids, True)
         else
           (case spawn_loop pthread_create_ok to_create (t + 1) (tids @ [t]) of
              (evs, tids', failed) \<Rightarrow> (Create t # evs, tids', failed)))
      else ([], tids, False))"
  by pat_completeness auto
termination
  by (relation "measure (\<lambda>(ok, to_create, t, tids). nat (to_create - t))") auto

declare spawn_loop.simps [simp del]

text \<open>
  The 1-D entry point \<open>parallel_for(low, high, lambda, numThreads)\<close>. An exception
  of the user's function on the calling thread leaves the call at once: the joins
  and the report are skipped. (The 1-D loop has no division, so its \<open>DivTrap\<close>
  branch only completes the case distinction.)
\<close>

definition parallel_for ::
  "(int \<Rightarrow> bool) \<Rightarrow> int \<Rightarrow> int \<Rightarrow> (int \<Rightarrow> 'x option) \<Rightarrow> int \<Rightarrow> (int, 'x) run" where
  "parallel_for pthread_create_ok low high lambda numThreads0 =
     (let numThreads1 = (if numThreads0 \<le> 0 then 1 else numThreads0) in
      if low \<ge> high then \<lparr>caller = [], workers = [], exit = Returns\<rparr>
      else
        (let parts0 = sm_split_range low high numThreads1;
             fallback = (int (length parts0) \<noteq> numThreads1);
             parts = (if fallback then sm_split_range low high 1 else parts0);
             numThreads = (if fallback then 1 else numThreads1);
             to_create = numThreads - 1
         in
           (case spawn_loop pthread_create_ok to_create 0 [] of
              (evs, tids, failed) \<Rightarrow>
                (let ws = map (\<lambda>t. sm_thread_entry_1d t
                                 (SM_ThreadArg lambda (fst (parts ! nat t)) (snd (parts ! nat t)))) tids
                 in
                   if failed then \<lparr>caller = evs, workers = ws, exit = Throws StartupFailure\<rparr>
                   else
                     (let main_idx = to_create in
                      case run_1d lambda (fst (parts ! nat main_idx)) (snd (parts ! nat main_idx)) of
                        (cs, Completed) \<Rightarrow>
                          \<lparr>caller = evs @ map Call cs @ map Join tids @ [Report],
                           workers = ws, exit = Returns\<rparr>
                      | (cs, Threw x) \<Rightarrow>
                          \<lparr>caller = evs @ map Call cs, workers = ws,
                           exit = Throws (CallbackFailure x)\<rparr>
                      | (cs, DivTrap) \<Rightarrow>
                          \<lparr>caller = evs @ map Call cs, workers = ws, exit = Traps\<rparr>)))))"

text \<open>
  The 2-D entry point \<open>parallel_for(low1, high1, low2, high2, lambda, numThreads)\<close>
  (an overload of the same name in the header). The differences \<open>high1 - low1\<close>
  and \<open>high2 - low2\<close> are computed in \<open>int\<close> and only then converted to
  \<open>long long\<close>.
\<close>

definition parallel_for_2d ::
  "(int \<Rightarrow> bool) \<Rightarrow> int \<Rightarrow> int \<Rightarrow> int \<Rightarrow> int \<Rightarrow> (int \<Rightarrow> int \<Rightarrow> 'x option) \<Rightarrow> int
     \<Rightarrow> (int \<times> int, 'x) run" where
  "parallel_for_2d pthread_create_ok low1 high1 low2 high2 lambda numThreads0 =
     (let numThreads1 = (if numThreads0 \<le> 0 then 1 else numThreads0) in
      if low1 \<ge> high1 \<or> low2 \<ge> high2 then \<lparr>caller = [], workers = [], exit = Returns\<rparr>
      else
        (let rows = wrap_int (high1 - low1);
             cols = wrap_int (high2 - low2);
             total = wrap_ll (rows * cols)
         in
           if total \<le> 0 then \<lparr>caller = [], workers = [], exit = Returns\<rparr>
           else if total > INT_MAX then \<lparr>caller = [], workers = [], exit = Throws OverflowError\<rparr>
           else
             (let total_int = wrap_int total;
                  parts0 = sm_split_range 0 total_int numThreads1;
                  fallback = (int (length parts0) \<noteq> numThreads1);
                  parts = (if fallback then sm_split_range 0 total_int 1 else parts0);
                  numThreads = (if fallback then 1 else numThreads1);
                  to_create = numThreads - 1
              in
                (case spawn_loop pthread_create_ok to_create 0 [] of
                   (evs, tids, failed) \<Rightarrow>
                     (let ws = map (\<lambda>t. sm_thread_entry_2d t
                                      ((SM_ThreadArg lambda (fst (parts ! nat t)) (snd (parts ! nat t)))
                                         \<lparr>arg_low1 := low1, arg_low2 := low2,
                                          arg_width2 := wrap_int cols\<rparr>)) tids
                      in
                        if failed then \<lparr>caller = evs, workers = ws, exit = Throws StartupFailure\<rparr>
                        else
                          (let main_idx = to_create;
                               w = wrap_int cols
                           in
                           case run_2d lambda low1 low2 w
                                  (fst (parts ! nat main_idx)) (snd (parts ! nat main_idx)) of
                             (cs, Completed) \<Rightarrow>
                               \<lparr>caller = evs @ map Call cs @ map Join tids @ [Report],
                                workers = ws, exit = Returns\<rparr>
                           | (cs, Threw x) \<Rightarrow>
                               \<lparr>caller = evs @ map Call cs, workers = ws,
                                exit = Throws (CallbackFailure x)\<rparr>
                           | (cs, DivTrap) \<Rightarrow>
                               \<lparr>caller = evs @ map Call cs, workers = ws, exit = Traps\<rparr>))))))"

section \<open>Notions used in the statements\<close>

text \<open>
  The \<open>k\<close>-th boundary of an even split of a range starting at \<open>low\<close>: the first
  \<open>rem\<close> pieces have \<open>base + 1\<close> indices, the others \<open>base\<close>.
\<close>

definition piece_bound :: "int \<Rightarrow> int \<Rightarrow> int \<Rightarrow> int \<Rightarrow> int" where
  "piece_bound low base rem k = low + k * base + min k rem"

text \<open>The indices of the half-open piece \<open>[s, e)\<close>, in increasing order.\<close>

definition indices :: "int \<times> int \<Rightarrow> int list" where
  "indices p = [fst p..snd p - 1]"

text \<open>The calls of the user's function among the calling thread's events.\<close>

fun calls_of :: "'a event list \<Rightarrow> 'a list" where
  "calls_of [] = []"
| "calls_of (Call a # evs) = a # calls_of evs"
| "calls_of (_ # evs) = calls_of evs"

text \<open>
  Every call of the user's function that a run makes: those of the workers, in the
  order of their pieces, then those of the calling thread.
\<close>

definition all_calls :: "('a, 'x) run \<Rightarrow> 'a list" where
  "all_calls r = concat (map w_calls (workers r)) @ calls_of (caller r)"

text \<open>
  Concrete inputs for the evaluations below: an environment in which every
  \<open>pthread_create\<close> succeeds, and user functions that return on every index.
\<close>

definition create_succeeds :: "int \<Rightarrow> bool" where
  "create_succeeds t = True"

definition returns_1d :: "int \<Rightarrow> unit option" where
  "returns_1d i = None"

definition returns_2d :: "int \<Rightarrow> int \<Rightarrow> unit option" where
  "returns_2d i j = None"

text \<open>
  An environment in which every \<open>pthread_create\<close> fails, and a user function of
  two indices that throws on the cell \<open>(0, 2)\<close> and returns elsewhere.
\<close>

definition create_fails :: "int \<Rightarrow> bool" where
  "create_fails t = False"

definition throws_at_0_2 :: "int \<Rightarrow> int \<Rightarrow> unit option" where
  "throws_at_0_2 i j = (if i = 0 \<and> j = 2 then Some () else None)"

text \<open>
  The column width and the flattened size as the 2-D entry point computes them, and
  the worker it creates for the piece number \<open>t\<close> of the pieces \<open>ps\<close>.
\<close>

definition cols_2d :: "int \<Rightarrow> int \<Rightarrow> int" where
  "cols_2d low2 high2 = wrap_int (high2 - low2)"

definition total_2d :: "int \<Rightarrow> int \<Rightarrow> int \<Rightarrow> int \<Rightarrow> int" where
  "total_2d low1 high1 low2 high2 = wrap_ll (wrap_int (high1 - low1) * wrap_int (high2 - low2))"

definition worker_2d ::
  "(int \<Rightarrow> int \<Rightarrow> 'x option) \<Rightarrow> int \<Rightarrow> int \<Rightarrow> int \<Rightarrow> (int \<times> int) list \<Rightarrow> int \<Rightarrow> (int \<times> int, 'x) worker" where
  "worker_2d f low1 low2 w ps t =
     sm_thread_entry_2d t
       ((SM_ThreadArg f (fst (ps ! nat t)) (snd (ps ! nat t)))
          \<lparr>arg_low1 := low1, arg_low2 := low2, arg_width2 := w\<rparr>)"

section \<open>Machine arithmetic within range\<close>

lemma wrap_int_id: "is_int v \<Longrightarrow> wrap_int v = v"
  by (simp add: is_int_def wrap_int_def INT_MIN_def INT_MAX_def)

lemma is_int_wrap_int: "is_int (wrap_int v)"
  unfolding is_int_def wrap_int_def INT_MIN_def INT_MAX_def
  using pos_mod_bound [of 4294967296 "v + 2147483648"] pos_mod_sign [of 4294967296 "v + 2147483648"]
  by linarith

lemma c_div_nonneg: "0 \<le> a \<Longrightarrow> 0 < b \<Longrightarrow> c_div a b = a div b"
  by (simp add: c_div_def)

lemma c_mod_nonneg: "0 \<le> a \<Longrightarrow> 0 < b \<Longrightarrow> c_mod a b = a mod b"
  by (simp add: c_mod_def c_div_nonneg minus_mult_div_eq_mod)

section \<open>The split\<close>

lemma length_split_loop: "length (split_loop n b r t c) = nat (n - t)"
proof (induction n b r t c rule: split_loop.induct)
  case (1 n b r t c)
  show ?case
  proof (cases "t < n")
    case True
    with 1 show ?thesis
      by (subst split_loop.simps) (simp add: Let_def nat_diff_distrib Suc_nat_eq_nat_zadd1)
  next
    case False
    then show ?thesis by (subst split_loop.simps) simp
  qed
qed

lemma length_sm_split_range: "length (sm_split_range low high n) = nat n"
  by (simp add: sm_split_range_def Let_def length_split_loop)

text \<open>
  So the test \<open>(int)parts.size() != numThreads\<close> of the entry points never holds, and
  every access \<open>parts[t]\<close>, for \<open>t\<close> from 0 to \<open>to_create = numThreads - 1\<close>, is
  within the vector.
\<close>

lemma parts_index_in_range:
  "1 \<le> n \<Longrightarrow> 0 \<le> t \<Longrightarrow> t \<le> n - 1 \<Longrightarrow> nat t < length (sm_split_range low high n)"
  by (simp add: length_sm_split_range)

section \<open>The spawning loop\<close>

lemma spawn_loop_done: "to_create \<le> t \<Longrightarrow> spawn_loop ok to_create t tids = ([], tids, False)"
  by (subst spawn_loop.simps) simp

lemma spawn_loop_all_ok:
  "\<forall>j. t \<le> j \<and> j < to_create \<longrightarrow> ok j \<Longrightarrow>
   spawn_loop ok to_create t tids = (map Create [t..to_create - 1], tids @ [t..to_create - 1], False)"
proof (induction ok to_create t tids rule: spawn_loop.induct)
  case (1 ok to_create t tids)
  show ?case
  proof (cases "t < to_create")
    case True
    with 1 show ?thesis
      by (subst spawn_loop.simps) (simp add: upto_rec1 [of t "to_create - 1"])
  next
    case False
    then show ?thesis by (subst spawn_loop.simps) simp
  qed
qed

lemma spawn_loop_fails:
  "t \<le> k \<Longrightarrow> k < to_create \<Longrightarrow> \<not> ok k \<Longrightarrow> \<forall>j. t \<le> j \<and> j < k \<longrightarrow> ok j \<Longrightarrow>
   spawn_loop ok to_create t tids =
     (map Create [t..k - 1] @ CreateFailed k # map Join (tids @ [t..k - 1]), tids @ [t..k - 1], True)"
proof (induction ok to_create t tids rule: spawn_loop.induct)
  case (1 ok to_create t tids)
  show ?case
  proof (cases "t = k")
    case True
    with 1 show ?thesis by (subst spawn_loop.simps) simp
  next
    case False
    with 1 have "t < k" "ok t" "t < to_create" by auto
    with 1 show ?thesis
      by (subst spawn_loop.simps) (simp add: upto_rec1 [of t "k - 1"])
  qed
qed

text \<open>Every way the loop can end.\<close>
lemma spawn_loop_cases:
  fixes evs :: "'a event list"
  assumes "spawn_loop ok to_create t tids = (evs, tids', failed)"
  shows "(\<not> failed \<and> evs = map Create [t..to_create - 1] \<and> tids' = tids @ [t..to_create - 1]
            \<and> (\<forall>j. t \<le> j \<and> j < to_create \<longrightarrow> ok j))
       \<or> (failed \<and> (\<exists>k. t \<le> k \<and> k < to_create \<and> \<not> ok k \<and> (\<forall>j. t \<le> j \<and> j < k \<longrightarrow> ok j)
            \<and> evs = map Create [t..k - 1] @ CreateFailed k # map Join (tids @ [t..k - 1])
            \<and> tids' = tids @ [t..k - 1]))"
proof (cases "\<forall>j. t \<le> j \<and> j < to_create \<longrightarrow> ok j")
  case True
  have "spawn_loop ok to_create t tids = (map Create [t..to_create - 1] :: 'a event list, tids @ [t..to_create - 1], False)"
    using True by (rule spawn_loop_all_ok)
  with assms True show ?thesis by simp
next
  case False
  then have ex: "\<exists>j. t \<le> j \<and> j < to_create \<and> \<not> ok j" by blast
  define m where "m = (LEAST d. \<not> ok (t + int d) \<and> t + int d < to_create)"
  from ex obtain j where j: "t \<le> j" "j < to_create" "\<not> ok j" by blast
  then have "\<not> ok (t + int (nat (j - t))) \<and> t + int (nat (j - t)) < to_create" by simp
  then have P: "\<not> ok (t + int m) \<and> t + int m < to_create"
    unfolding m_def by (rule LeastI)
  have least: "\<And>d. d < m \<Longrightarrow> ok (t + int d) \<or> \<not> t + int d < to_create"
    unfolding m_def using not_less_Least by blast
  have "\<forall>i. t \<le> i \<and> i < t + int m \<longrightarrow> ok i"
  proof (intro allI impI)
    fix i assume i: "t \<le> i \<and> i < t + int m"
    then have "nat (i - t) < m" by linarith
    from least [OF this] i P show "ok i" by simp
  qed
  with P have "spawn_loop ok to_create t tids =
     (map Create [t..t + int m - 1] @ CreateFailed (t + int m) # map Join (tids @ [t..t + int m - 1]) :: 'a event list,
      tids @ [t..t + int m - 1], True)"
    by (intro spawn_loop_fails) auto
  with assms have "failed" "evs = map Create [t..t + int m - 1] @ CreateFailed (t + int m) # map Join (tids @ [t..t + int m - 1])"
     "tids' = tids @ [t..t + int m - 1]" by auto
  moreover have "t \<le> t + int m" by simp
  ultimately show ?thesis using P \<open>\<forall>i. t \<le> i \<and> i < t + int m \<longrightarrow> ok i\<close> by blast
qed

section \<open>The pieces in closed form\<close>

lemma piece_bound_0: "0 \<le> rem \<Longrightarrow> piece_bound low base rem 0 = low"
  by (simp add: piece_bound_def)

lemma piece_bound_Suc:
  "piece_bound low base rem (k + 1) = piece_bound low base rem k + (base + (if k < rem then 1 else 0))"
  by (simp add: piece_bound_def algebra_simps)

lemma piece_bound_mono:
  assumes "0 \<le> base" "j \<le> k"
  shows "piece_bound low base rem j \<le> piece_bound low base rem k"
proof -
  have "j * base \<le> k * base" using assms by (simp add: mult_right_mono)
  moreover have "min j rem \<le> min k rem" using assms by simp
  ultimately show ?thesis by (simp add: piece_bound_def)
qed

lemma split_loop_closed:
  assumes "0 \<le> base" "0 \<le> rem" "0 \<le> t"
    and "is_int low" "is_int (piece_bound low base rem n)"
    and "piece_bound low base rem n - low \<le> INT_MAX"
    and "cur = piece_bound low base rem t"
  shows "split_loop n base rem t cur =
           map (\<lambda>k. (piece_bound low base rem (int k), piece_bound low base rem (int k + 1)))
             [nat t..<nat n]"
  using assms
proof (induction n base rem t cur rule: split_loop.induct)
  case (1 n base rem t cur)
  show ?case
  proof (cases "t < n")
    case False
    then show ?thesis by (subst split_loop.simps) simp
  next
    case True
    let ?b = "piece_bound low base rem"
    let ?add = "base + (if t < rem then 1 else 0)"
    have lo: "low \<le> ?b t" using piece_bound_mono [of base 0 t low rem] 1 by (simp add: piece_bound_0)
    have mid: "?b t \<le> ?b (t + 1)" using piece_bound_mono [of base t "t + 1" low rem] 1 by simp
    have hi: "?b (t + 1) \<le> ?b n" using piece_bound_mono [of base "t + 1" n low rem] 1 True by simp
    have step: "?b (t + 1) = ?b t + ?add" by (rule piece_bound_Suc)
    have "0 \<le> ?add" using 1 by simp
    moreover have "?add \<le> INT_MAX" using step lo hi 1(7) by linarith
    ultimately have add: "wrap_int ?add = ?add"
      by (intro wrap_int_id) (simp add: is_int_def INT_MIN_def)
    have "is_int (?b (t + 1))" using lo mid hi 1(5,6) by (simp add: is_int_def)
    then have e: "wrap_int (cur + ?add) = ?b (t + 1)"
      using step 1(8) by (simp add: wrap_int_id)
    have e': "wrap_int (cur + wrap_int ?add) = ?b (t + 1)"
      using add e by simp
    have "split_loop n base rem (t + 1) (wrap_int (cur + wrap_int ?add)) =
        map (\<lambda>k. (?b (int k), ?b (int k + 1))) [nat (t + 1)..<nat n]"
      using "1.prems" e' by (intro "1.IH" [OF True refl refl refl]) simp_all
    then have rest: "split_loop n base rem (t + 1) (?b (t + 1)) =
        map (\<lambda>k. (?b (int k), ?b (int k + 1))) [nat (t + 1)..<nat n]"
      using e' by simp
    have upt: "[nat t..<nat n] = nat t # [nat (t + 1)..<nat n]"
      using True 1(4) by (simp add: upt_conv_Cons nat_add_distrib)
    show ?thesis
      apply (subst split_loop.simps)
      using True add e rest upt 1(4,8) by (simp add: Let_def del: upt_Suc)
  qed
qed

lemma sm_split_range_closed:
  assumes "is_int low" "is_int high" "low < high" "1 \<le> n" "high - low \<le> INT_MAX"
  shows "sm_split_range low high n =
           map (\<lambda>k. (piece_bound low ((high - low) div n) ((high - low) mod n) (int k),
                     piece_bound low ((high - low) div n) ((high - low) mod n) (int k + 1)))
             [0..<nat n]"
proof -
  let ?total = "high - low"
  have total: "wrap_int ?total = ?total"
    using assms by (intro wrap_int_id) (simp add: is_int_def INT_MIN_def)
  have base: "c_div ?total n = ?total div n" using assms by (simp add: c_div_nonneg)
  have rem: "c_mod ?total n = ?total mod n" using assms by (simp add: c_mod_nonneg)
  have rem_bounds: "0 \<le> ?total mod n" "?total mod n < n" using assms by simp_all
  have top: "piece_bound low (?total div n) (?total mod n) n = high"
    using rem_bounds by (simp add: piece_bound_def)
  have "split_loop n (?total div n) (?total mod n) 0 low =
          map (\<lambda>k. (piece_bound low (?total div n) (?total mod n) (int k),
                    piece_bound low (?total div n) (?total mod n) (int k + 1))) [nat 0..<nat n]"
    using assms rem_bounds top
    by (intro split_loop_closed) (simp_all add: piece_bound_0 pos_imp_zdiv_nonneg_iff)
  then show ?thesis
    using assms total base rem by (simp add: sm_split_range_def Let_def)
qed

section \<open>The loops over a piece\<close>

lemma run_1d_all_None:
  "\<forall>i. s \<le> i \<and> i < e \<longrightarrow> f i = None \<Longrightarrow> run_1d f s e = ([s..e - 1], Completed)"
proof (induction f s e rule: run_1d.induct)
  case (1 f i e)
  show ?case
  proof (cases "i < e")
    case True
    with 1 show ?thesis
      by (subst run_1d.simps) (simp add: upto_rec1 [of i "e - 1"])
  next
    case False
    then show ?thesis by (subst run_1d.simps) simp
  qed
qed

lemma run_1d_Threw:
  "s \<le> k \<Longrightarrow> k < e \<Longrightarrow> f k = Some x \<Longrightarrow> \<forall>i. s \<le> i \<and> i < k \<longrightarrow> f i = None \<Longrightarrow>
   run_1d f s e = ([s..k], Threw x)"
proof (induction f s e rule: run_1d.induct)
  case (1 f i e)
  show ?case
  proof (cases "i = k")
    case True
    with 1 show ?thesis by (subst run_1d.simps) simp
  next
    case False
    with 1 have "i < k" "f i = None" "i < e" by auto
    with 1 show ?thesis
      by (subst run_1d.simps) (simp add: upto_rec1 [of i k])
  qed
qed

section \<open>Events of the calling thread\<close>

lemma calls_of_append: "calls_of (xs @ ys) = calls_of xs @ calls_of ys"
  by (induction xs rule: calls_of.induct) simp_all

lemma calls_of_Call: "calls_of (map Call cs) = cs"
  by (induction cs) simp_all

lemma calls_of_Create: "calls_of (map Create ts) = []"
  by (induction ts) simp_all

lemma calls_of_Join: "calls_of (map Join ts) = []"
  by (induction ts) simp_all

lemma single_thread_1d:
  "workers (parallel_for ok low high f 1) = [] \<and>
   (\<forall>t. Create t \<notin> set (caller (parallel_for ok low high f 1)) \<and>
        CreateFailed t \<notin> set (caller (parallel_for ok low high f 1)) \<and>
        Join t \<notin> set (caller (parallel_for ok low high f 1)))"
  by (auto simp add: parallel_for_def Let_def length_sm_split_range spawn_loop_done
        split: prod.splits halt.splits)

lemma single_thread_2d:
  "workers (parallel_for_2d ok low1 high1 low2 high2 g 1) = [] \<and>
   (\<forall>t. Create t \<notin> set (caller (parallel_for_2d ok low1 high1 low2 high2 g 1)) \<and>
        CreateFailed t \<notin> set (caller (parallel_for_2d ok low1 high1 low2 high2 g 1)) \<and>
        Join t \<notin> set (caller (parallel_for_2d ok low1 high1 low2 high2 g 1)))"
  by (auto simp add: parallel_for_2d_def Let_def length_sm_split_range spawn_loop_done
        split: prod.splits halt.splits)

section \<open>C8: a non-positive thread count is a thread count of one\<close>

text \<open>
  C8. For every range and every user function, a call of either entry point with
  \<open>numThreads \<le> 0\<close> is the same run as the call with \<open>numThreads = 1\<close>: the
  calling thread's events (so the calls of the user's function and their order) and
  the way the call ends are equal, no worker thread exists, and no
  \<open>pthread_create\<close> is attempted.
\<close>

theorem nonpositive_numThreads_is_one:
  assumes "numThreads \<le> 0"
  shows "parallel_for ok low high f numThreads = parallel_for ok low high f 1
       \<and> workers (parallel_for ok low high f numThreads) = []
       \<and> (\<forall>t. Create t \<notin> set (caller (parallel_for ok low high f numThreads))
              \<and> CreateFailed t \<notin> set (caller (parallel_for ok low high f numThreads)))
       \<and> parallel_for_2d ok low1 high1 low2 high2 g numThreads
           = parallel_for_2d ok low1 high1 low2 high2 g 1
       \<and> workers (parallel_for_2d ok low1 high1 low2 high2 g numThreads) = []
       \<and> (\<forall>t. Create t \<notin> set (caller (parallel_for_2d ok low1 high1 low2 high2 g numThreads))
              \<and> CreateFailed t \<notin> set (caller (parallel_for_2d ok low1 high1 low2 high2 g numThreads)))"
proof -
  have a: "parallel_for ok low high f numThreads = parallel_for ok low high f 1"
    using assms by (simp add: parallel_for_def)
  have b: "parallel_for_2d ok low1 high1 low2 high2 g numThreads
           = parallel_for_2d ok low1 high1 low2 high2 g 1"
    using assms by (simp add: parallel_for_2d_def)
  show ?thesis
    unfolding a b using single_thread_1d [of ok low high f] single_thread_2d [of ok low1 high1 low2 high2 g]
    by simp
qed

theorem nonpositive_numThreads_is_one_witness:
  "(- 2 :: int) \<le> 0
   \<and> parallel_for (\<lambda>_. True) 0 3 (\<lambda>_. None :: unit option) (- 2)
       = \<lparr>caller = [Call 0, Call 1, Call 2, Report], workers = [], exit = Returns\<rparr>
   \<and> parallel_for_2d (\<lambda>_. True) 0 1 0 2 (\<lambda>_ _. None :: unit option) (- 2)
       = \<lparr>caller = [Call (0, 0), Call (0, 1), Report], workers = [], exit = Returns\<rparr>"
proof -
  have one: "parallel_for (\<lambda>_. True) 0 3 (\<lambda>_. None :: unit option) 1
       = \<lparr>caller = [Call 0, Call 1, Call 2, Report], workers = [], exit = Returns\<rparr>"
    by code_simp
  have two: "parallel_for_2d (\<lambda>_. True) 0 1 0 2 (\<lambda>_ _. None :: unit option) 1
       = \<lparr>caller = [Call (0, 0), Call (0, 1), Report], workers = [], exit = Returns\<rparr>"
    by code_simp
  have "(- 2 :: int) \<le> 0" by simp
  from nonpositive_numThreads_is_one [OF this, of "\<lambda>_. True" 0 3 "\<lambda>_. None :: unit option"
      0 1 0 2 "\<lambda>_ _. None :: unit option"] one two
  show ?thesis by simp
qed

section \<open>The pieces cover the range\<close>

lemma concat_pieces:
  assumes "\<And>j k. j \<le> k \<Longrightarrow> b j \<le> b k"
  shows "concat (map (\<lambda>k. [b (int k)..b (int k + 1) - 1]) [0..<m]) = [b 0..b (int m) - 1]"
proof (induction m)
  case 0
  show ?case by simp
next
  case (Suc m)
  have le: "b 0 \<le> b (int m)" "b (int m) \<le> b (int m + 1)" by (simp_all add: assms)
  have "[b 0..b (int m + 1) - 1] = [b 0..b (int m) - 1] @ [b (int m)..b (int m + 1) - 1]"
  proof (cases "b (int m) = b (int m + 1)")
    case True
    then show ?thesis by simp
  next
    case False
    with le have "b (int m) \<le> b (int m + 1) - 1" by simp
    with le(1) show ?thesis by (rule upto_split1)
  qed
  with Suc show ?case by (simp add: add.commute)
qed

lemma sm_split_range_nth:
  assumes "is_int low" "is_int high" "low < high" "1 \<le> n" "high - low \<le> INT_MAX" "k < nat n"
  shows "sm_split_range low high n ! k =
           (piece_bound low ((high - low) div n) ((high - low) mod n) (int k),
            piece_bound low ((high - low) div n) ((high - low) mod n) (int k + 1))"
  using assms by (simp add: sm_split_range_closed)

lemma piece_bound_top:
  "1 \<le> n \<Longrightarrow> piece_bound low (d div n) (d mod n) n = low + d"
  by (simp add: piece_bound_def)

lemma piece_bound_bot:
  "1 \<le> n \<Longrightarrow> piece_bound low (d div n) (d mod n) 0 = low"
  by (simp add: piece_bound_def)

lemma piece_bound_split_mono:
  "1 \<le> n \<Longrightarrow> 0 \<le> d \<Longrightarrow> j \<le> k \<Longrightarrow>
   piece_bound low (d div n) (d mod n) j \<le> piece_bound low (d div n) (d mod n) k"
  by (rule piece_bound_mono) (simp_all add: pos_imp_zdiv_nonneg_iff)

lemma sm_split_range_cover:
  assumes "is_int low" "is_int high" "low < high" "1 \<le> n" "high - low \<le> INT_MAX"
  shows "concat (map indices (sm_split_range low high n)) = [low..high - 1]"
proof -
  let ?b = "piece_bound low ((high - low) div n) ((high - low) mod n)"
  have "concat (map indices (sm_split_range low high n)) =
          concat (map (\<lambda>k. [?b (int k)..?b (int k + 1) - 1]) [0..<nat n])"
    using assms by (simp add: sm_split_range_closed indices_def comp_def)
  also have "\<dots> = [?b 0..?b (int (nat n)) - 1]"
    using assms by (intro concat_pieces piece_bound_split_mono) simp_all
  also have "\<dots> = [low..high - 1]"
    using assms piece_bound_top [of n low "high - low"] piece_bound_bot [of n low "high - low"] by simp
  finally show ?thesis .
qed

section \<open>C2: the split is an even partition of the range\<close>

text \<open>
  C2, as amended. For every \<open>low < high\<close> whose extent \<open>high - low\<close> fits the
  type \<open>int\<close> (is at most \<open>INT_MAX\<close>) and every \<open>n \<ge> 1\<close>,
  \<open>sm_split_range low high n\<close> returns exactly \<open>n\<close> pieces; the indices of the
  pieces, one piece after the other, are the indices \<open>low, \<dots>, high - 1\<close> in
  increasing order, each once (so the pieces are ordered, do not overlap and cover
  the range); the first piece starts at \<open>low\<close>, the last ends at \<open>high\<close>, each
  piece starts where the one before ends; the first \<open>(high - low) mod n\<close> pieces have
  \<open>(high - low) div n + 1\<close> indices and the others \<open>(high - low) div n\<close>, so two sizes
  differ by at most 1.
\<close>

theorem sm_split_range_even:
  assumes "is_int low" "is_int high" "low < high" "1 \<le> n" "high - low \<le> INT_MAX"
  shows "int (length (sm_split_range low high n)) = n
       \<and> concat (map indices (sm_split_range low high n)) = [low..high - 1]
       \<and> fst (sm_split_range low high n ! 0) = low
       \<and> snd (sm_split_range low high n ! (nat n - 1)) = high
       \<and> (\<forall>k. Suc k < nat n \<longrightarrow>
            fst (sm_split_range low high n ! Suc k) = snd (sm_split_range low high n ! k))
       \<and> (\<forall>k. k < nat n \<longrightarrow>
            snd (sm_split_range low high n ! k) - fst (sm_split_range low high n ! k)
              = (if int k < (high - low) mod n then (high - low) div n + 1 else (high - low) div n))
       \<and> (\<forall>j k. j < nat n \<and> k < nat n \<longrightarrow>
            \<bar>(snd (sm_split_range low high n ! j) - fst (sm_split_range low high n ! j))
              - (snd (sm_split_range low high n ! k) - fst (sm_split_range low high n ! k))\<bar> \<le> 1)"
proof -
  let ?ps = "sm_split_range low high n"
  let ?b = "piece_bound low ((high - low) div n) ((high - low) mod n)"
  have len: "int (length ?ps) = n" using assms by (simp add: length_sm_split_range)
  have nth: "\<And>k. k < nat n \<Longrightarrow> ?ps ! k = (?b (int k), ?b (int k + 1))"
    using assms by (rule sm_split_range_nth)
  have size: "\<And>k. k < nat n \<Longrightarrow> snd (?ps ! k) - fst (?ps ! k)
      = (if int k < (high - low) mod n then (high - low) div n + 1 else (high - low) div n)"
    by (simp add: nth piece_bound_Suc)
  have first: "fst (?ps ! 0) = low"
    using assms nth [of 0] piece_bound_bot [of n low "high - low"] by simp
  have "int (nat n - 1) + 1 = n" using assms by simp
  then have last: "snd (?ps ! (nat n - 1)) = high"
    using assms nth [of "nat n - 1"] piece_bound_top [of n low "high - low"] by simp
  have contiguous: "\<And>k. Suc k < nat n \<Longrightarrow> fst (?ps ! Suc k) = snd (?ps ! k)"
    by (simp add: nth add.commute)
  have differ: "\<And>j k. j < nat n \<and> k < nat n \<Longrightarrow>
      \<bar>(snd (?ps ! j) - fst (?ps ! j)) - (snd (?ps ! k) - fst (?ps ! k))\<bar> \<le> 1"
    by (simp add: size)
  show ?thesis
    using len sm_split_range_cover [OF assms] first last contiguous size differ by blast
qed

theorem sm_split_range_even_witness:
  "is_int 0 \<and> is_int 10 \<and> (0::int) < 10 \<and> (1::int) \<le> 3 \<and> 10 - 0 \<le> INT_MAX
   \<and> sm_split_range 0 10 3 = [(0, 4), (4, 7), (7, 10)]
   \<and> concat (map indices (sm_split_range 0 10 3)) = [0, 1, 2, 3, 4, 5, 6, 7, 8, 9]"
proof -
  have h: "is_int 0" "is_int 10" "(0::int) < 10" "(1::int) \<le> 3" "10 - 0 \<le> INT_MAX"
    by (simp_all add: is_int_def INT_MIN_def INT_MAX_def)
  have v: "sm_split_range 0 10 3 = [(0, 4), (4, 7), (7, 10)]" by code_simp
  have u: "[0..9] = [0, 1, 2, 3, 4, 5, 6, 7, 8, 9 :: int]" by code_simp
  from sm_split_range_even [OF h] h v u show ?thesis by simp
qed

text \<open>
  The claim as it was written, for every \<open>low < high\<close>, fails where \<open>high - low\<close>
  leaves the range of \<open>int\<close>: on the range from \<open>INT_MIN\<close> to \<open>INT_MAX\<close> the
  wrapped \<open>total\<close> is \<open>-1\<close>, and for two pieces both are empty.
\<close>

theorem sm_split_range_wide_counterexample:
  "is_int INT_MIN \<and> is_int INT_MAX \<and> INT_MIN < INT_MAX \<and> (1::int) \<le> 2
   \<and> sm_split_range INT_MIN INT_MAX 2 = [(INT_MIN, INT_MIN), (INT_MIN, INT_MIN)]
   \<and> concat (map indices (sm_split_range INT_MIN INT_MAX 2)) = []
   \<and> snd (sm_split_range INT_MIN INT_MAX 2 ! 1) \<noteq> INT_MAX"
  by code_simp

section \<open>The 1-D entry point, case by case\<close>

lemma first_index:
  fixes s e :: int
  assumes "s \<le> j" "j < e" "P j"
  shows "\<exists>k. s \<le> k \<and> k < e \<and> P k \<and> (\<forall>i. s \<le> i \<and> i < k \<longrightarrow> \<not> P i)"
proof -
  define m where "m = (LEAST d. P (s + int d))"
  have "P (s + int (nat (j - s)))" using assms by simp
  then have P: "P (s + int m)" and le: "m \<le> nat (j - s)"
    unfolding m_def by (rule LeastI, rule Least_le)
  have "\<forall>i. s \<le> i \<and> i < s + int m \<longrightarrow> \<not> P i"
  proof (intro allI impI)
    fix i assume i: "s \<le> i \<and> i < s + int m"
    then have "nat (i - s) < m" by linarith
    then have "\<not> P (s + int (nat (i - s)))" unfolding m_def by (rule not_less_Least)
    with i show "\<not> P i" by simp
  qed
  moreover have "s + int m < e" using le assms by linarith
  ultimately show ?thesis using P by (intro exI [of _ "s + int m"]) simp
qed

lemma run_1d_cases:
  assumes "run_1d f s e = (cs, h)"
  shows "(h = Completed \<and> cs = [s..e - 1] \<and> (\<forall>i. s \<le> i \<and> i < e \<longrightarrow> f i = None))
       \<or> (\<exists>k x. h = Threw x \<and> s \<le> k \<and> k < e \<and> cs = [s..k] \<and> f k = Some x
              \<and> (\<forall>i. s \<le> i \<and> i < k \<longrightarrow> f i = None))"
proof (cases "\<forall>i. s \<le> i \<and> i < e \<longrightarrow> f i = None")
  case True
  from run_1d_all_None [OF True] assms True show ?thesis by simp
next
  case False
  then obtain j where "s \<le> j" "j < e" "f j \<noteq> None" by blast
  from first_index [of s j e "\<lambda>i. f i \<noteq> None", OF this]
  obtain k where k: "s \<le> k" "k < e" "f k \<noteq> None" "\<forall>i. s \<le> i \<and> i < k \<longrightarrow> f i = None" by auto
  then obtain x where x: "f k = Some x" by auto
  from run_1d_Threw [OF k(1,2) x k(4)] assms have "h = Threw x" "cs = [s..k]" by simp_all
  with k x show ?thesis by blast
qed

lemma sm_thread_entry_1d_fields:
  "w_tid (sm_thread_entry_1d t (SM_ThreadArg f s e)) = t"
  "w_start (sm_thread_entry_1d t (SM_ThreadArg f s e)) = s"
  "w_end (sm_thread_entry_1d t (SM_ThreadArg f s e)) = e"
  "w_calls (sm_thread_entry_1d t (SM_ThreadArg f s e)) = fst (run_1d f s e)"
  "w_halt (sm_thread_entry_1d t (SM_ThreadArg f s e)) = snd (run_1d f s e)"
  by (simp_all add: sm_thread_entry_1d_def SM_ThreadArg_def split: prod.splits)

lemma parallel_for_cases [consumes 1, case_names Failed Returned Raised]:
  fixes f :: "int \<Rightarrow> 'x option"
  assumes "low < high"
  obtains
    (Failed) k where "0 \<le> k" "k < max 1 n0 - 1" "\<not> ok k" "\<forall>j. 0 \<le> j \<and> j < k \<longrightarrow> ok j"
      "parallel_for ok low high f n0 =
         \<lparr>caller = map Create [0..k - 1] @ CreateFailed k # map Join [0..k - 1],
          workers = map (\<lambda>t. sm_thread_entry_1d t
                      (SM_ThreadArg f (fst (sm_split_range low high (max 1 n0) ! nat t))
                                      (snd (sm_split_range low high (max 1 n0) ! nat t)))) [0..k - 1],
          exit = Throws StartupFailure\<rparr>"
  | (Returned) "\<forall>j. 0 \<le> j \<and> j < max 1 n0 - 1 \<longrightarrow> ok j"
      "\<forall>i. fst (sm_split_range low high (max 1 n0) ! nat (max 1 n0 - 1)) \<le> i
          \<and> i < snd (sm_split_range low high (max 1 n0) ! nat (max 1 n0 - 1)) \<longrightarrow> f i = None"
      "parallel_for ok low high f n0 =
         \<lparr>caller = map Create [0..max 1 n0 - 2]
            @ map Call (indices (sm_split_range low high (max 1 n0) ! nat (max 1 n0 - 1)))
            @ map Join [0..max 1 n0 - 2] @ [Report],
          workers = map (\<lambda>t. sm_thread_entry_1d t
                      (SM_ThreadArg f (fst (sm_split_range low high (max 1 n0) ! nat t))
                                      (snd (sm_split_range low high (max 1 n0) ! nat t)))) [0..max 1 n0 - 2],
          exit = Returns\<rparr>"
  | (Raised) k x where "\<forall>j. 0 \<le> j \<and> j < max 1 n0 - 1 \<longrightarrow> ok j"
      "fst (sm_split_range low high (max 1 n0) ! nat (max 1 n0 - 1)) \<le> k"
      "k < snd (sm_split_range low high (max 1 n0) ! nat (max 1 n0 - 1))"
      "f k = Some x"
      "\<forall>i. fst (sm_split_range low high (max 1 n0) ! nat (max 1 n0 - 1)) \<le> i \<and> i < k \<longrightarrow> f i = None"
      "parallel_for ok low high f n0 =
         \<lparr>caller = map Create [0..max 1 n0 - 2]
            @ map Call [fst (sm_split_range low high (max 1 n0) ! nat (max 1 n0 - 1))..k],
          workers = map (\<lambda>t. sm_thread_entry_1d t
                      (SM_ThreadArg f (fst (sm_split_range low high (max 1 n0) ! nat t))
                                      (snd (sm_split_range low high (max 1 n0) ! nat t)))) [0..max 1 n0 - 2],
          exit = Throws (CallbackFailure x)\<rparr>"
proof -
  define n where "n = max 1 n0"
  define parts where "parts = sm_split_range low high n"
  define W where "W = (\<lambda>t. sm_thread_entry_1d t (SM_ThreadArg f (fst (parts ! nat t)) (snd (parts ! nat t))))"
  have n: "(if n0 \<le> 0 then 1 else n0) = n" "1 \<le> n" by (simp_all add: n_def max_def)
  have len: "int (length parts) = n" using n by (simp add: parts_def length_sm_split_range)
  obtain evs :: "int event list" and tids failed
    where sp: "spawn_loop ok (n - 1) 0 [] = (evs, tids, failed)"
    by (cases "spawn_loop ok (n - 1) 0 [] :: int event list \<times> int list \<times> bool") auto
  obtain cs h where rn: "run_1d f (fst (parts ! nat (n - 1))) (snd (parts ! nat (n - 1))) = (cs, h)"
    by (cases "run_1d f (fst (parts ! nat (n - 1))) (snd (parts ! nat (n - 1)))")
  have unfold: "parallel_for ok low high f n0 =
      (if failed then \<lparr>caller = evs, workers = map W tids, exit = Throws StartupFailure\<rparr>
       else case h of
          Completed \<Rightarrow> \<lparr>caller = evs @ map Call cs @ map Join tids @ [Report], workers = map W tids, exit = Returns\<rparr>
        | Threw x \<Rightarrow> \<lparr>caller = evs @ map Call cs, workers = map W tids, exit = Throws (CallbackFailure x)\<rparr>
        | DivTrap \<Rightarrow> \<lparr>caller = evs @ map Call cs, workers = map W tids, exit = Traps\<rparr>)"
    using assms n sp rn len
    by (simp add: parallel_for_def Let_def parts_def [symmetric] W_def split: halt.splits)
  from spawn_loop_cases [OF sp] show thesis
  proof (elim disjE conjE exE)
    fix k
    assume "failed" "0 \<le> k" "k < n - 1" "\<not> ok k" "\<forall>j. 0 \<le> j \<and> j < k \<longrightarrow> ok j"
      "evs = map Create [0..k - 1] @ CreateFailed k # map Join ([] @ [0..k - 1])" "tids = [] @ [0..k - 1]"
    then show thesis
      using unfold by (intro Failed [of k]) (simp_all add: n_def parts_def W_def)
  next
    assume ok: "\<not> failed" "evs = map Create [0..n - 1 - 1]" "tids = [] @ [0..n - 1 - 1]"
      "\<forall>j. 0 \<le> j \<and> j < n - 1 \<longrightarrow> ok j"
    from run_1d_cases [OF rn] show thesis
    proof (elim disjE conjE exE)
      assume "h = Completed" "cs = [fst (parts ! nat (n - 1))..snd (parts ! nat (n - 1)) - 1]"
        "\<forall>i. fst (parts ! nat (n - 1)) \<le> i \<and> i < snd (parts ! nat (n - 1)) \<longrightarrow> f i = None"
      then show thesis
        using unfold ok by (intro Returned) (simp_all add: n_def parts_def W_def indices_def)
    next
      fix k x
      assume "h = Threw x" "fst (parts ! nat (n - 1)) \<le> k" "k < snd (parts ! nat (n - 1))"
        "cs = [fst (parts ! nat (n - 1))..k]" "f k = Some x"
        "\<forall>i. fst (parts ! nat (n - 1)) \<le> i \<and> i < k \<longrightarrow> f i = None"
      then show thesis
        using unfold ok by (intro Raised [of k x]) (simp_all add: n_def parts_def W_def)
    qed
  qed
qed

lemma upto_as_upt: "[0..m - 1] = map int [0..<nat m]"
proof (induction "nat m" arbitrary: m)
  case 0
  then show ?case by simp
next
  case (Suc k)
  then have m: "0 < m" "k = nat (m - 1)" by linarith+
  from Suc.hyps(1) [OF m(2)] have "[0..m - 1 - 1] = map int [0..<nat (m - 1)]" .
  moreover have "[0..m - 1] = [0..m - 1 - 1] @ [m - 1]" using m by (intro upto_rec2) simp
  moreover have "[0..<nat m] = [0..<nat (m - 1)] @ [nat (m - 1)]"
    using m by (metis Suc.hyps(2) upt_Suc_append zero_le)
  ultimately show ?case using m by simp
qed

lemma pieces_split_last:
  assumes "length ps = nat n" "1 \<le> n"
  shows "ps = map (\<lambda>t. ps ! nat t) [0..n - 2] @ [ps ! nat (n - 1)]"
proof -
  have len: "length ps = Suc (nat (n - 1))" using assms by simp
  have "[0..n - 2] = map int [0..<nat (n - 1)]" using upto_as_upt [of "n - 1"] by simp
  then have a: "map (\<lambda>t. ps ! nat t) [0..n - 2] = map ((!) ps) [0..<nat (n - 1)]"
    by (simp add: comp_def)
  have "ps = map ((!) ps) [0..<Suc (nat (n - 1))]" using map_nth [of ps] len by simp
  also have "\<dots> = map ((!) ps) [0..<nat (n - 1)] @ [ps ! nat (n - 1)]" by simp
  finally show ?thesis using a by simp
qed

lemma sm_split_range_within:
  assumes "is_int low" "is_int high" "low < high" "1 \<le> n" "high - low \<le> INT_MAX" "k < nat n"
  shows "low \<le> fst (sm_split_range low high n ! k)"
    and "fst (sm_split_range low high n ! k) \<le> snd (sm_split_range low high n ! k)"
    and "snd (sm_split_range low high n ! k) \<le> high"
proof -
  let ?b = "piece_bound low ((high - low) div n) ((high - low) mod n)"
  have nth: "sm_split_range low high n ! k = (?b (int k), ?b (int k + 1))"
    using assms by (rule sm_split_range_nth)
  have "?b 0 \<le> ?b (int k)" "?b (int k) \<le> ?b (int k + 1)" "?b (int k + 1) \<le> ?b n"
    using assms by (intro piece_bound_split_mono; simp)+
  then show "low \<le> fst (sm_split_range low high n ! k)"
    and "fst (sm_split_range low high n ! k) \<le> snd (sm_split_range low high n ! k)"
    and "snd (sm_split_range low high n ! k) \<le> high"
    using assms(4) nth piece_bound_top [of n low "high - low"] piece_bound_bot [of n low "high - low"]
    by simp_all
qed

lemma parallel_for_completes:
  fixes f :: "int \<Rightarrow> 'x option"
  assumes "is_int low" "is_int high" "low < high" "high - low \<le> INT_MAX"
    and ok: "\<forall>t. 0 \<le> t \<and> t < max 1 numThreads - 1 \<longrightarrow> ok t"
    and f: "\<forall>i. low \<le> i \<and> i < high \<longrightarrow> f i = None"
  shows "parallel_for ok low high f numThreads =
     \<lparr>caller = map Create [0..max 1 numThreads - 2]
          @ map Call (indices (sm_split_range low high (max 1 numThreads) ! nat (max 1 numThreads - 1)))
          @ map Join [0..max 1 numThreads - 2] @ [Report],
      workers = map (\<lambda>t. \<lparr>w_tid = t,
                           w_start = fst (sm_split_range low high (max 1 numThreads) ! nat t),
                           w_end = snd (sm_split_range low high (max 1 numThreads) ! nat t),
                           w_calls = indices (sm_split_range low high (max 1 numThreads) ! nat t),
                           w_halt = Completed\<rparr>) [0..max 1 numThreads - 2],
      exit = Returns\<rparr>"
proof -
  define n where "n = max 1 numThreads"
  define ps where "ps = sm_split_range low high n"
  have n: "1 \<le> n" by (simp add: n_def)
  have within: "\<And>t. 0 \<le> t \<Longrightarrow> t < n \<Longrightarrow> low \<le> fst (ps ! nat t) \<and> snd (ps ! nat t) \<le> high"
    unfolding ps_def using assms(1-4) n by (intro conjI sm_split_range_within) simp_all
  have runs: "\<And>t. 0 \<le> t \<Longrightarrow> t < n \<Longrightarrow>
      run_1d f (fst (ps ! nat t)) (snd (ps ! nat t)) = (indices (ps ! nat t), Completed)"
    unfolding indices_def using within f by (intro run_1d_all_None) force
  have W: "\<And>t. t \<in> set [0..n - 2] \<Longrightarrow>
      sm_thread_entry_1d t (SM_ThreadArg f (fst (ps ! nat t)) (snd (ps ! nat t))) =
        \<lparr>w_tid = t, w_start = fst (ps ! nat t), w_end = snd (ps ! nat t),
         w_calls = indices (ps ! nat t), w_halt = Completed\<rparr>"
    using runs by (simp add: sm_thread_entry_1d_def SM_ThreadArg_def)
  from assms(3) show ?thesis
  proof (cases rule: parallel_for_cases [where ok = ok and f = f and ?n0.0 = numThreads])
    case (Failed k)
    with ok show ?thesis by simp
  next
    case Returned
    have "map (\<lambda>t. sm_thread_entry_1d t (SM_ThreadArg f (fst (ps ! nat t)) (snd (ps ! nat t)))) [0..n - 2]
        = map (\<lambda>t. \<lparr>w_tid = t, w_start = fst (ps ! nat t), w_end = snd (ps ! nat t),
             w_calls = indices (ps ! nat t), w_halt = Completed\<rparr>) [0..n - 2]"
      using W by (intro map_cong refl)
    with Returned(3) show ?thesis by (simp add: n_def ps_def)
  next
    case (Raised k x)
    from within [of "n - 1"] n have "low \<le> fst (ps ! nat (n - 1))" "snd (ps ! nat (n - 1)) \<le> high" by simp_all
    with Raised(2,3,4) f show ?thesis unfolding n_def ps_def by force
  qed
qed

section \<open>C1: the 1-D entry point calls the function once for each index\<close>

text \<open>
  C1, as amended. For every \<open>low < high\<close> whose extent \<open>high - low\<close> fits the
  type \<open>int\<close> and every \<open>numThreads\<close>, a call of
  \<open>parallel_for(low, high, body, numThreads)\<close> in which every \<open>pthread_create\<close>
  succeeds and \<open>body\<close> throws on no index of the range returns, and the calls of
  \<open>body\<close> made by the workers and by the calling thread, piece after piece, are
  exactly the indices \<open>low, \<dots>, high - 1\<close>, each once and no other. In particular
  \<open>parallel_for(0, 10, body, 3)\<close> gives the pieces \<open>[0, 4)\<close> and \<open>[4, 7)\<close> to
  two workers and runs \<open>[7, 10)\<close> on the calling thread: sizes 4, 3, 3.
\<close>

theorem parallel_for_each_index_once:
  fixes f :: "int \<Rightarrow> 'x option"
  assumes "is_int low" "is_int high" "low < high" "high - low \<le> INT_MAX"
    and "\<forall>t. 0 \<le> t \<and> t < max 1 numThreads - 1 \<longrightarrow> ok t"
    and "\<forall>i. low \<le> i \<and> i < high \<longrightarrow> f i = None"
  shows "all_calls (parallel_for ok low high f numThreads) = [low..high - 1]
       \<and> exit (parallel_for ok low high f numThreads) = Returns
       \<and> (low = 0 \<and> high = 10 \<and> numThreads = 3 \<longrightarrow>
            parallel_for ok low high f numThreads =
              \<lparr>caller = [Create 0, Create 1, Call 7, Call 8, Call 9, Join 0, Join 1, Report],
               workers = [\<lparr>w_tid = 0, w_start = 0, w_end = 4, w_calls = [0, 1, 2, 3], w_halt = Completed\<rparr>,
                          \<lparr>w_tid = 1, w_start = 4, w_end = 7, w_calls = [4, 5, 6], w_halt = Completed\<rparr>],
               exit = Returns\<rparr>)"
proof -
  define n where "n = max 1 numThreads"
  define ps where "ps = sm_split_range low high n"
  have n: "1 \<le> n" by (simp add: n_def)
  note run = parallel_for_completes [OF assms, folded n_def, folded ps_def]
  have len: "length ps = nat n" by (simp add: ps_def length_sm_split_range)
  have "all_calls (parallel_for ok low high f numThreads)
      = concat (map indices (map (\<lambda>t. ps ! nat t) [0..n - 2] @ [ps ! nat (n - 1)]))"
    by (simp add: run all_calls_def calls_of_append calls_of_Call calls_of_Create calls_of_Join comp_def)
  also have "\<dots> = concat (map indices ps)"
    using pieces_split_last [OF len n] by simp
  also have "\<dots> = [low..high - 1]"
    unfolding ps_def using assms(1-4) n by (simp add: sm_split_range_cover)
  finally have all: "all_calls (parallel_for ok low high f numThreads) = [low..high - 1]" .
  have inst: "parallel_for ok low high f numThreads =
              \<lparr>caller = [Create 0, Create 1, Call 7, Call 8, Call 9, Join 0, Join 1, Report],
               workers = [\<lparr>w_tid = 0, w_start = 0, w_end = 4, w_calls = [0, 1, 2, 3], w_halt = Completed\<rparr>,
                          \<lparr>w_tid = 1, w_start = 4, w_end = 7, w_calls = [4, 5, 6], w_halt = Completed\<rparr>],
               exit = Returns\<rparr>"
    if "low = 0 \<and> high = 10 \<and> numThreads = 3"
  proof -
    have v: "sm_split_range 0 10 3 = [(0, 4), (4, 7), (7, 10)]" by code_simp
    have u: "[0..1] = [0, 1 :: int]" "[0..3] = [0, 1, 2, 3 :: int]" "[4..6] = [4, 5, 6 :: int]"
      "[7..9] = [7, 8, 9 :: int]" by code_simp+
    from that have "n = 3" "ps = [(0, 4), (4, 7), (7, 10)]" by (simp_all add: n_def ps_def v)
    with run u show ?thesis by (simp add: indices_def)
  qed
  show ?thesis using all inst by (simp add: run)
qed

theorem parallel_for_each_index_once_witness:
  "is_int 0 \<and> is_int 10 \<and> (0 :: int) < 10 \<and> 10 - 0 \<le> INT_MAX
   \<and> all_calls (parallel_for (\<lambda>_. True) 0 10 (\<lambda>_. None :: unit option) 3) = [0, 1, 2, 3, 4, 5, 6, 7, 8, 9]
   \<and> parallel_for (\<lambda>_. True) 0 10 (\<lambda>_. None :: unit option) 3 =
       \<lparr>caller = [Create 0, Create 1, Call 7, Call 8, Call 9, Join 0, Join 1, Report],
        workers = [\<lparr>w_tid = 0, w_start = 0, w_end = 4, w_calls = [0, 1, 2, 3], w_halt = Completed\<rparr>,
                   \<lparr>w_tid = 1, w_start = 4, w_end = 7, w_calls = [4, 5, 6], w_halt = Completed\<rparr>],
        exit = Returns\<rparr>"
proof -
  have h: "is_int 0" "is_int 10" "(0 :: int) < 10" "10 - 0 \<le> INT_MAX"
    by (simp_all add: is_int_def INT_MIN_def INT_MAX_def)
  have u: "[0..9] = [0, 1, 2, 3, 4, 5, 6, 7, 8, 9 :: int]" by code_simp
  from parallel_for_each_index_once [OF h, of 3 "\<lambda>_. True" "\<lambda>_. None :: unit option"] h u
  show ?thesis by (simp add: all_calls_def)
qed

text \<open>
  The claim as it was written, for every \<open>low < high\<close>, fails where \<open>high - low\<close>
  leaves the range of \<open>int\<close>: with two threads on the range from \<open>INT_MIN\<close> to
  \<open>INT_MAX\<close> both pieces are empty and the function is never called.
\<close>

theorem parallel_for_wide_counterexample:
  "is_int INT_MIN \<and> is_int INT_MAX \<and> INT_MIN < INT_MAX
   \<and> parallel_for create_succeeds INT_MIN INT_MAX returns_1d 2 =
       \<lparr>caller = [Create 0, Join 0, Report],
        workers = [\<lparr>w_tid = 0, w_start = INT_MIN, w_end = INT_MIN, w_calls = [], w_halt = Completed\<rparr>],
        exit = Returns\<rparr>
   \<and> all_calls (parallel_for create_succeeds INT_MIN INT_MAX returns_1d 2) = []"
  by code_simp

section \<open>The 2-D loop over a piece\<close>

lemma flat_to_ij_Some:
  "w \<noteq> 0 \<Longrightarrow> w = - 1 \<longrightarrow> INT_MIN < flat \<Longrightarrow> flat_to_ij w low1 low2 flat = Some (unflatten w low1 low2 flat)"
  by (auto simp add: flat_to_ij_def)

lemma run_2d_all_None:
  "w \<noteq> 0 \<Longrightarrow> w = - 1 \<longrightarrow> INT_MIN < s \<Longrightarrow>
   \<forall>flat. s \<le> flat \<and> flat < e \<longrightarrow>
      f (fst (unflatten w low1 low2 flat)) (snd (unflatten w low1 low2 flat)) = None \<Longrightarrow>
   run_2d f low1 low2 w s e = (map (unflatten w low1 low2) [s..e - 1], Completed)"
proof (induction f low1 low2 w s e rule: run_2d.induct)
  case (1 f low1 low2 w flat e)
  show ?case
  proof (cases "flat < e")
    case True
    have ij: "flat_to_ij w low1 low2 flat = Some (unflatten w low1 low2 flat)"
      using 1(2,3) by (rule flat_to_ij_Some)
    have here: "f (fst (unflatten w low1 low2 flat)) (snd (unflatten w low1 low2 flat)) = None"
      using 1(4) True by simp
    have "run_2d f low1 low2 w (flat + 1) e = (map (unflatten w low1 low2) [flat + 1..e - 1], Completed)"
      using 1(2-4) by (intro "1.IH" [OF True ij here]) auto
    with True ij here show ?thesis
      by (subst run_2d.simps) (simp add: upto_rec1 [of flat "e - 1"])
  next
    case False
    then show ?thesis by (subst run_2d.simps) simp
  qed
qed

lemma run_2d_Threw:
  "w \<noteq> 0 \<Longrightarrow> w = - 1 \<longrightarrow> INT_MIN < s \<Longrightarrow> s \<le> k \<Longrightarrow> k < e \<Longrightarrow>
   f (fst (unflatten w low1 low2 k)) (snd (unflatten w low1 low2 k)) = Some x \<Longrightarrow>
   \<forall>flat. s \<le> flat \<and> flat < k \<longrightarrow>
      f (fst (unflatten w low1 low2 flat)) (snd (unflatten w low1 low2 flat)) = None \<Longrightarrow>
   run_2d f low1 low2 w s e = (map (unflatten w low1 low2) [s..k], Threw x)"
proof (induction f low1 low2 w s e rule: run_2d.induct)
  case (1 f low1 low2 w flat e)
  have ij: "flat_to_ij w low1 low2 flat = Some (unflatten w low1 low2 flat)"
    using 1(2,3) by (rule flat_to_ij_Some)
  show ?case
  proof (cases "flat = k")
    case True
    with 1 ij show ?thesis by (subst run_2d.simps) simp
  next
    case False
    with 1 have lt: "flat < k" "flat < e" by auto
    with 1 have here: "f (fst (unflatten w low1 low2 flat)) (snd (unflatten w low1 low2 flat)) = None"
      by simp
    have "run_2d f low1 low2 w (flat + 1) e = (map (unflatten w low1 low2) [flat + 1..k], Threw x)"
      using 1(2-7) lt by (intro "1.IH" [OF lt(2) ij here]) auto
    with lt ij here show ?thesis
      by (subst run_2d.simps) (simp add: upto_rec1 [of flat k])
  qed
qed

lemma run_2d_cases:
  assumes "run_2d f low1 low2 w s e = (cs, h)" and "w \<noteq> 0" "w = - 1 \<longrightarrow> INT_MIN < s"
  shows "(h = Completed \<and> cs = map (unflatten w low1 low2) [s..e - 1]
            \<and> (\<forall>flat. s \<le> flat \<and> flat < e \<longrightarrow>
                  f (fst (unflatten w low1 low2 flat)) (snd (unflatten w low1 low2 flat)) = None))
       \<or> (\<exists>k x. h = Threw x \<and> s \<le> k \<and> k < e \<and> cs = map (unflatten w low1 low2) [s..k]
              \<and> f (fst (unflatten w low1 low2 k)) (snd (unflatten w low1 low2 k)) = Some x
              \<and> (\<forall>flat. s \<le> flat \<and> flat < k \<longrightarrow>
                  f (fst (unflatten w low1 low2 flat)) (snd (unflatten w low1 low2 flat)) = None))"
proof -
  let ?g = "\<lambda>flat. f (fst (unflatten w low1 low2 flat)) (snd (unflatten w low1 low2 flat))"
  show ?thesis
  proof (cases "\<forall>flat. s \<le> flat \<and> flat < e \<longrightarrow> ?g flat = None")
    case True
    from run_2d_all_None [OF assms(2,3) True] assms(1) True show ?thesis by simp
  next
    case False
    then obtain j where "s \<le> j" "j < e" "?g j \<noteq> None" by blast
    from first_index [of s j e "\<lambda>i. ?g i \<noteq> None", OF this]
    obtain k where k: "s \<le> k" "k < e" "?g k \<noteq> None" "\<forall>i. s \<le> i \<and> i < k \<longrightarrow> ?g i = None" by auto
    then obtain x where x: "?g k = Some x" by auto
    from run_2d_Threw [OF assms(2,3) k(1,2) x k(4)] assms(1)
    have "h = Threw x" "cs = map (unflatten w low1 low2) [s..k]" by simp_all
    with k x show ?thesis by blast
  qed
qed

lemma sm_thread_entry_2d_fields:
  "w_tid (sm_thread_entry_2d t (SM_ThreadArg f s e\<lparr>arg_low1 := low1, arg_low2 := low2, arg_width2 := w\<rparr>)) = t"
  "w_start (sm_thread_entry_2d t (SM_ThreadArg f s e\<lparr>arg_low1 := low1, arg_low2 := low2, arg_width2 := w\<rparr>)) = s"
  "w_end (sm_thread_entry_2d t (SM_ThreadArg f s e\<lparr>arg_low1 := low1, arg_low2 := low2, arg_width2 := w\<rparr>)) = e"
  "w_calls (sm_thread_entry_2d t (SM_ThreadArg f s e\<lparr>arg_low1 := low1, arg_low2 := low2, arg_width2 := w\<rparr>))
     = fst (run_2d f low1 low2 w s e)"
  "w_halt (sm_thread_entry_2d t (SM_ThreadArg f s e\<lparr>arg_low1 := low1, arg_low2 := low2, arg_width2 := w\<rparr>))
     = snd (run_2d f low1 low2 w s e)"
  by (simp_all add: sm_thread_entry_2d_def SM_ThreadArg_def split: prod.splits)

lemma wrap_int_idem: "wrap_int (wrap_int v) = wrap_int v"
  by (rule wrap_int_id) (rule is_int_wrap_int)

lemma wrap_ll_product:
  assumes "is_int r" "is_int c"
  shows "wrap_ll (r * c) = r * c"
proof -
  have "\<bar>r\<bar> \<le> 2147483648" "\<bar>c\<bar> \<le> 2147483648"
    using assms unfolding is_int_def INT_MIN_def INT_MAX_def by linarith+
  then have "\<bar>r\<bar> * \<bar>c\<bar> \<le> 2147483648 * 2147483648"
    by (intro mult_mono) simp_all
  then have "\<bar>r * c\<bar> \<le> 4611686018427387904" by (simp add: abs_mult)
  then show ?thesis by (simp add: wrap_ll_def)
qed

section \<open>The 2-D entry point, case by case\<close>

lemma total_2d_positive:
  assumes "0 < total_2d low1 high1 low2 high2"
  shows "cols_2d low2 high2 \<noteq> 0"
proof
  assume "cols_2d low2 high2 = 0"
  then have "total_2d low1 high1 low2 high2 = 0"
    by (simp add: total_2d_def cols_2d_def wrap_ll_def)
  with assms show False by simp
qed

lemma flat_pieces_nonneg:
  assumes "0 < T" "T \<le> INT_MAX" "1 \<le> n" "0 \<le> t" "t < n"
  shows "0 \<le> fst (sm_split_range 0 T n ! nat t)"
  using assms by (intro sm_split_range_within) (simp_all add: is_int_def INT_MIN_def INT_MAX_def)

lemma parallel_for_2d_cases [case_names Empty Overflow Failed Returned Raised]:
  fixes f :: "int \<Rightarrow> int \<Rightarrow> 'x option" and n0 low1 high1 low2 high2 :: int
  defines "n \<equiv> max 1 n0"
    and "T \<equiv> total_2d low1 high1 low2 high2"
    and "w \<equiv> cols_2d low2 high2"
  defines "ps \<equiv> sm_split_range 0 T n"
  obtains
    (Empty) "low1 \<ge> high1 \<or> low2 \<ge> high2 \<or> T \<le> 0"
      "parallel_for_2d ok low1 high1 low2 high2 f n0 = \<lparr>caller = [], workers = [], exit = Returns\<rparr>"
  | (Overflow) "low1 < high1" "low2 < high2" "INT_MAX < T"
      "parallel_for_2d ok low1 high1 low2 high2 f n0 = \<lparr>caller = [], workers = [], exit = Throws OverflowError\<rparr>"
  | (Failed) k where "low1 < high1" "low2 < high2" "0 < T" "T \<le> INT_MAX" "w \<noteq> 0"
      "0 \<le> k" "k < n - 1" "\<not> ok k" "\<forall>j. 0 \<le> j \<and> j < k \<longrightarrow> ok j"
      "parallel_for_2d ok low1 high1 low2 high2 f n0 =
         \<lparr>caller = map Create [0..k - 1] @ CreateFailed k # map Join [0..k - 1],
          workers = map (worker_2d f low1 low2 w ps) [0..k - 1],
          exit = Throws StartupFailure\<rparr>"
  | (Returned) "low1 < high1" "low2 < high2" "0 < T" "T \<le> INT_MAX" "w \<noteq> 0"
      "\<forall>j. 0 \<le> j \<and> j < n - 1 \<longrightarrow> ok j"
      "\<forall>flat. fst (ps ! nat (n - 1)) \<le> flat \<and> flat < snd (ps ! nat (n - 1)) \<longrightarrow>
          f (fst (unflatten w low1 low2 flat)) (snd (unflatten w low1 low2 flat)) = None"
      "parallel_for_2d ok low1 high1 low2 high2 f n0 =
         \<lparr>caller = map Create [0..n - 2]
            @ map Call (map (unflatten w low1 low2) (indices (ps ! nat (n - 1))))
            @ map Join [0..n - 2] @ [Report],
          workers = map (worker_2d f low1 low2 w ps) [0..n - 2],
          exit = Returns\<rparr>"
  | (Raised) k x where "low1 < high1" "low2 < high2" "0 < T" "T \<le> INT_MAX" "w \<noteq> 0"
      "\<forall>j. 0 \<le> j \<and> j < n - 1 \<longrightarrow> ok j"
      "fst (ps ! nat (n - 1)) \<le> k" "k < snd (ps ! nat (n - 1))"
      "f (fst (unflatten w low1 low2 k)) (snd (unflatten w low1 low2 k)) = Some x"
      "\<forall>flat. fst (ps ! nat (n - 1)) \<le> flat \<and> flat < k \<longrightarrow>
          f (fst (unflatten w low1 low2 flat)) (snd (unflatten w low1 low2 flat)) = None"
      "parallel_for_2d ok low1 high1 low2 high2 f n0 =
         \<lparr>caller = map Create [0..n - 2]
            @ map Call (map (unflatten w low1 low2) [fst (ps ! nat (n - 1))..k]),
          workers = map (worker_2d f low1 low2 w ps) [0..n - 2],
          exit = Throws (CallbackFailure x)\<rparr>"
proof (cases "low1 \<ge> high1 \<or> low2 \<ge> high2 \<or> T \<le> 0")
  case True
  then have "parallel_for_2d ok low1 high1 low2 high2 f n0 = \<lparr>caller = [], workers = [], exit = Returns\<rparr>"
    by (auto simp add: parallel_for_2d_def Let_def T_def total_2d_def)
  with True show thesis by (rule Empty)
next
  case False
  then have g: "low1 < high1" "low2 < high2" "0 < T" by simp_all
  show thesis
  proof (cases "INT_MAX < T")
    case True
    with g have "parallel_for_2d ok low1 high1 low2 high2 f n0 =
        \<lparr>caller = [], workers = [], exit = Throws OverflowError\<rparr>"
      by (simp add: parallel_for_2d_def Let_def T_def total_2d_def)
    with g True show thesis by (intro Overflow)
  next
    case False
    then have T: "T \<le> INT_MAX" by simp
    have n: "(if n0 \<le> 0 then 1 else n0) = n" "1 \<le> n" by (simp_all add: n_def max_def)
    have Tint: "wrap_int T = T"
      using g T by (intro wrap_int_id) (simp add: is_int_def INT_MIN_def)
    have w0: "w \<noteq> 0" using g unfolding w_def T_def by (intro total_2d_positive)
    have ww: "wrap_int (wrap_int (high2 - low2)) = w" by (simp add: w_def cols_2d_def wrap_int_idem)
    have len: "int (length ps) = n" using n by (simp add: ps_def length_sm_split_range)
    have start: "\<And>t. 0 \<le> t \<Longrightarrow> t < n \<Longrightarrow> w = - 1 \<longrightarrow> INT_MIN < fst (ps ! nat t)"
      using flat_pieces_nonneg [OF g(3) T n(2)] by (force simp add: ps_def INT_MIN_def)
    obtain evs :: "(int \<times> int) event list" and tids failed
      where sp: "spawn_loop ok (n - 1) 0 [] = (evs, tids, failed)"
      by (cases "spawn_loop ok (n - 1) 0 [] :: (int \<times> int) event list \<times> int list \<times> bool") auto
    obtain cs h where rn: "run_2d f low1 low2 w (fst (ps ! nat (n - 1))) (snd (ps ! nat (n - 1))) = (cs, h)"
      by (cases "run_2d f low1 low2 w (fst (ps ! nat (n - 1))) (snd (ps ! nat (n - 1)))")
    have unfold: "parallel_for_2d ok low1 high1 low2 high2 f n0 =
      (if failed then \<lparr>caller = evs, workers = map (worker_2d f low1 low2 w ps) tids, exit = Throws StartupFailure\<rparr>
       else case h of
          Completed \<Rightarrow> \<lparr>caller = evs @ map Call cs @ map Join tids @ [Report],
                         workers = map (worker_2d f low1 low2 w ps) tids, exit = Returns\<rparr>
        | Threw x \<Rightarrow> \<lparr>caller = evs @ map Call cs, workers = map (worker_2d f low1 low2 w ps) tids,
                       exit = Throws (CallbackFailure x)\<rparr>
        | DivTrap \<Rightarrow> \<lparr>caller = evs @ map Call cs, workers = map (worker_2d f low1 low2 w ps) tids,
                       exit = Traps\<rparr>)"
      using g T n sp rn len Tint ww
      by (simp add: parallel_for_2d_def Let_def T_def [symmetric] total_2d_def [symmetric]
            ps_def [symmetric] worker_2d_def [abs_def] split: halt.splits)
    from spawn_loop_cases [OF sp] show thesis
    proof (elim disjE conjE exE)
      fix k
      assume "failed" "0 \<le> k" "k < n - 1" "\<not> ok k" "\<forall>j. 0 \<le> j \<and> j < k \<longrightarrow> ok j"
        "evs = map Create [0..k - 1] @ CreateFailed k # map Join ([] @ [0..k - 1])" "tids = [] @ [0..k - 1]"
      then show thesis
        using unfold g T w0 by (intro Failed [of k]) simp_all
    next
      assume ok: "\<not> failed" "evs = map Create [0..n - 1 - 1]" "tids = [] @ [0..n - 1 - 1]"
        "\<forall>j. 0 \<le> j \<and> j < n - 1 \<longrightarrow> ok j"
      have "w = - 1 \<longrightarrow> INT_MIN < fst (ps ! nat (n - 1))"
        using n(2) by (intro start) simp_all
      from run_2d_cases [OF rn w0 this] show thesis
      proof (elim disjE conjE exE)
        assume "h = Completed"
          "cs = map (unflatten w low1 low2) [fst (ps ! nat (n - 1))..snd (ps ! nat (n - 1)) - 1]"
          "\<forall>flat. fst (ps ! nat (n - 1)) \<le> flat \<and> flat < snd (ps ! nat (n - 1)) \<longrightarrow>
             f (fst (unflatten w low1 low2 flat)) (snd (unflatten w low1 low2 flat)) = None"
        then show thesis
          using unfold ok g T w0 by (intro Returned) (simp_all add: indices_def)
      next
        fix k x
        assume "h = Threw x" "fst (ps ! nat (n - 1)) \<le> k" "k < snd (ps ! nat (n - 1))"
          "cs = map (unflatten w low1 low2) [fst (ps ! nat (n - 1))..k]"
          "f (fst (unflatten w low1 low2 k)) (snd (unflatten w low1 low2 k)) = Some x"
          "\<forall>flat. fst (ps ! nat (n - 1)) \<le> flat \<and> flat < k \<longrightarrow>
             f (fst (unflatten w low1 low2 flat)) (snd (unflatten w low1 low2 flat)) = None"
        then show thesis
          using unfold ok g T w0 by (intro Raised [of k x]) simp_all
      qed
    qed
  qed
qed

section \<open>The index mapping\<close>

lemma flat_div_bounds:
  fixes flat rows cols :: int
  assumes "0 \<le> flat" "flat < rows * cols" "1 \<le> cols"
  shows "0 \<le> flat div cols" "flat div cols < rows" "0 \<le> flat mod cols" "flat mod cols < cols"
proof -
  show "0 \<le> flat div cols" using assms by (simp add: pos_imp_zdiv_nonneg_iff)
  show "0 \<le> flat mod cols" "flat mod cols < cols" using assms by simp_all
  show "flat div cols < rows"
  proof (rule ccontr)
    assume "\<not> flat div cols < rows"
    then have "rows * cols \<le> (flat div cols) * cols"
      using assms by (intro mult_right_mono) simp_all
    moreover have "(flat div cols) * cols + flat mod cols = flat" by (rule div_mult_mod_eq)
    moreover have "0 \<le> flat mod cols" using assms by simp
    ultimately show False using assms(2) by linarith
  qed
qed

lemma unflatten_in_range:
  assumes "is_int low1" "is_int high1" "is_int low2" "is_int high2" "1 \<le> high2 - low2"
    and "0 \<le> flat" "flat < (high1 - low1) * (high2 - low2)"
  shows "unflatten (high2 - low2) low1 low2 flat
           = (flat div (high2 - low2) + low1, flat mod (high2 - low2) + low2)"
    and "low1 \<le> flat div (high2 - low2) + low1" "flat div (high2 - low2) + low1 < high1"
    and "low2 \<le> flat mod (high2 - low2) + low2" "flat mod (high2 - low2) + low2 < high2"
proof -
  let ?c = "high2 - low2"
  note b = flat_div_bounds [OF assms(6,7,5)]
  show r: "low1 \<le> flat div ?c + low1" "flat div ?c + low1 < high1"
    "low2 \<le> flat mod ?c + low2" "flat mod ?c + low2 < high2"
    using b by simp_all
  have "is_int (flat div ?c + low1)" "is_int (flat mod ?c + low2)"
    using r assms(1-4) by (simp_all add: is_int_def)
  then show "unflatten ?c low1 low2 flat = (flat div ?c + low1, flat mod ?c + low2)"
    using assms(5,6) by (simp add: unflatten_def c_div_nonneg c_mod_nonneg wrap_int_id)
qed

lemma flatten_in_range:
  fixes i j low1 high1 low2 high2 :: int
  assumes "low1 \<le> i" "i < high1" "low2 \<le> j" "j < high2"
  shows "0 \<le> (i - low1) * (high2 - low2) + (j - low2)"
    and "(i - low1) * (high2 - low2) + (j - low2) < (high1 - low1) * (high2 - low2)"
    and "((i - low1) * (high2 - low2) + (j - low2)) div (high2 - low2) = i - low1"
    and "((i - low1) * (high2 - low2) + (j - low2)) mod (high2 - low2) = j - low2"
proof -
  let ?c = "high2 - low2"
  have c: "0 < ?c" "0 \<le> j - low2" "j - low2 < ?c" using assms by simp_all
  have "0 \<le> (i - low1) * ?c" using assms by simp
  then show "0 \<le> (i - low1) * ?c + (j - low2)" using c by simp
  have "(i - low1 + 1) * ?c \<le> (high1 - low1) * ?c"
    using assms by (intro mult_right_mono) simp_all
  then show "(i - low1) * ?c + (j - low2) < (high1 - low1) * ?c"
    using c by (simp add: algebra_simps)
  show "((i - low1) * ?c + (j - low2)) div ?c = i - low1"
    using c by (simp add: div_pos_pos_trivial)
  show "((i - low1) * ?c + (j - low2)) mod ?c = j - low2"
    using c by (simp add: mod_pos_pos_trivial)
qed

lemma flat_successor:
  fixes flat cols :: int
  assumes "1 \<le> cols"
  shows "(flat + 1) div cols = (if flat mod cols + 1 < cols then flat div cols else flat div cols + 1)"
    and "(flat + 1) mod cols = (if flat mod cols + 1 < cols then flat mod cols + 1 else 0)"
proof -
  have "flat div cols * cols + flat mod cols = flat" by (rule div_mult_mod_eq)
  then have eq: "flat + 1 = flat div cols * cols + (flat mod cols + 1)" by linarith
  have r: "0 \<le> flat mod cols" "flat mod cols < cols" using assms by simp_all
  have "(flat div cols * cols + (flat mod cols + 1)) div cols = flat div cols + (flat mod cols + 1) div cols"
    using assms by (intro div_mult_self3) simp
  then have d: "(flat + 1) div cols = flat div cols + (flat mod cols + 1) div cols"
    by (simp only: eq [symmetric])
  have "(flat div cols * cols + (flat mod cols + 1)) mod cols = (flat mod cols + 1) mod cols"
    by (rule mod_mult_self3)
  then have m: "(flat + 1) mod cols = (flat mod cols + 1) mod cols"
    by (simp only: eq [symmetric])
  show "(flat + 1) div cols = (if flat mod cols + 1 < cols then flat div cols else flat div cols + 1)"
  proof (cases "flat mod cols + 1 < cols")
    case True
    with r d show ?thesis by (simp add: div_pos_pos_trivial)
  next
    case False
    with r have "flat mod cols + 1 = cols" by simp
    with assms d False show ?thesis by simp
  qed
  show "(flat + 1) mod cols = (if flat mod cols + 1 < cols then flat mod cols + 1 else 0)"
  proof (cases "flat mod cols + 1 < cols")
    case True
    with r m show ?thesis by (simp add: mod_pos_pos_trivial)
  next
    case False
    with r have "flat mod cols + 1 = cols" by simp
    with assms m False show ?thesis by simp
  qed
qed

lemma unflatten_bij:
  assumes "is_int low1" "is_int high1" "is_int low2" "is_int high2" "1 \<le> high2 - low2"
  shows "bij_betw (unflatten (high2 - low2) low1 low2)
           {0..<(high1 - low1) * (high2 - low2)} ({low1..<high1} \<times> {low2..<high2})"
proof (rule bij_betw_byWitness [where f' = "\<lambda>(i, j). (i - low1) * (high2 - low2) + (j - low2)"])
  show "\<forall>flat \<in> {0..<(high1 - low1) * (high2 - low2)}.
      (\<lambda>(i, j). (i - low1) * (high2 - low2) + (j - low2)) (unflatten (high2 - low2) low1 low2 flat) = flat"
    using unflatten_in_range(1) [OF assms] by (simp add: div_mult_mod_eq)
  show "\<forall>ij \<in> {low1..<high1} \<times> {low2..<high2}.
      unflatten (high2 - low2) low1 low2 ((\<lambda>(i, j). (i - low1) * (high2 - low2) + (j - low2)) ij) = ij"
  proof
    fix ij assume "ij \<in> {low1..<high1} \<times> {low2..<high2}"
    then obtain i j where ij: "ij = (i, j)" "low1 \<le> i" "i < high1" "low2 \<le> j" "j < high2" by auto
    note f = flatten_in_range [OF ij(2-5)]
    from unflatten_in_range(1) [OF assms f(1,2)] f(3,4) ij(1)
    show "unflatten (high2 - low2) low1 low2 ((\<lambda>(i, j). (i - low1) * (high2 - low2) + (j - low2)) ij) = ij"
      by simp
  qed
  show "unflatten (high2 - low2) low1 low2 ` {0..<(high1 - low1) * (high2 - low2)}
      \<subseteq> {low1..<high1} \<times> {low2..<high2}"
    using unflatten_in_range [OF assms] by auto
  show "(\<lambda>(i, j). (i - low1) * (high2 - low2) + (j - low2)) ` ({low1..<high1} \<times> {low2..<high2})
      \<subseteq> {0..<(high1 - low1) * (high2 - low2)}"
    using flatten_in_range(1,2) by auto
qed

section \<open>C4: the index mapping is a row-major bijection\<close>

text \<open>
  C4. With \<open>cols = high2 - low2 \<ge> 1\<close> and \<open>rows = high1 - low1\<close>, the mapping
  \<open>flat \<mapsto> (flat / cols + low1, flat % cols + low2)\<close> of the 2-D loops is a
  bijection between the flat indices \<open>0, \<dots>, rows * cols - 1\<close> and the grid
  \<open>[low1, high1) \<times> [low2, high2)\<close>; it is defined on every such flat index (no
  division traps); its inverse is \<open>(i, j) \<mapsto> (i - low1) * cols + (j - low2)\<close>; and
  the next flat index is the next column of the same row, or the first column of the
  next row once the row is exhausted.
\<close>

theorem unflatten_row_major_bijection:
  assumes "is_int low1" "is_int high1" "is_int low2" "is_int high2" "1 \<le> high2 - low2"
  shows "bij_betw (unflatten (high2 - low2) low1 low2)
           {0..<(high1 - low1) * (high2 - low2)} ({low1..<high1} \<times> {low2..<high2})
       \<and> (\<forall>flat. 0 \<le> flat \<and> flat < (high1 - low1) * (high2 - low2) \<longrightarrow>
             flat_to_ij (high2 - low2) low1 low2 flat
               = Some (flat div (high2 - low2) + low1, flat mod (high2 - low2) + low2))
       \<and> (\<forall>i j. low1 \<le> i \<and> i < high1 \<and> low2 \<le> j \<and> j < high2 \<longrightarrow>
             unflatten (high2 - low2) low1 low2 ((i - low1) * (high2 - low2) + (j - low2)) = (i, j))
       \<and> (\<forall>flat i j. 0 \<le> flat \<and> flat < (high1 - low1) * (high2 - low2)
               \<and> unflatten (high2 - low2) low1 low2 flat = (i, j) \<longrightarrow>
             (i - low1) * (high2 - low2) + (j - low2) = flat)
       \<and> (\<forall>flat i j. 0 \<le> flat \<and> flat + 1 < (high1 - low1) * (high2 - low2)
               \<and> unflatten (high2 - low2) low1 low2 flat = (i, j) \<longrightarrow>
             unflatten (high2 - low2) low1 low2 (flat + 1)
               = (if j + 1 < high2 then (i, j + 1) else (i + 1, low2)))"
proof (intro conjI allI impI)
  let ?c = "high2 - low2"
  note U = unflatten_in_range [OF assms]
  show "bij_betw (unflatten ?c low1 low2) {0..<(high1 - low1) * ?c} ({low1..<high1} \<times> {low2..<high2})"
    using assms by (rule unflatten_bij)
  show "flat_to_ij ?c low1 low2 flat = Some (flat div ?c + low1, flat mod ?c + low2)"
    if "0 \<le> flat \<and> flat < (high1 - low1) * ?c" for flat
    using that assms(5) U(1) [of flat] by (simp add: flat_to_ij_def)
  show "unflatten ?c low1 low2 ((i - low1) * ?c + (j - low2)) = (i, j)"
    if "low1 \<le> i \<and> i < high1 \<and> low2 \<le> j \<and> j < high2" for i j
  proof -
    from that have ij: "low1 \<le> i" "i < high1" "low2 \<le> j" "j < high2" by simp_all
    note f = flatten_in_range [OF ij]
    from U(1) [OF f(1,2)] f(3,4) show ?thesis by simp
  qed
  show "(i - low1) * ?c + (j - low2) = flat"
    if "0 \<le> flat \<and> flat < (high1 - low1) * ?c \<and> unflatten ?c low1 low2 flat = (i, j)" for flat i j
    using that U(1) [of flat] by (auto simp add: div_mult_mod_eq)
  show "unflatten ?c low1 low2 (flat + 1) = (if j + 1 < high2 then (i, j + 1) else (i + 1, low2))"
    if "0 \<le> flat \<and> flat + 1 < (high1 - low1) * ?c \<and> unflatten ?c low1 low2 flat = (i, j)" for flat i j
  proof -
    from that have a: "0 \<le> flat" "flat < (high1 - low1) * ?c" "0 \<le> flat + 1" "flat + 1 < (high1 - low1) * ?c"
      and ij: "unflatten ?c low1 low2 flat = (i, j)" by simp_all
    from U(1) [OF a(1,2)] ij have i: "i = flat div ?c + low1" and j: "j = flat mod ?c + low2" by simp_all
    from U(1) [OF a(3,4)] flat_successor [OF assms(5), of flat] i j
    show ?thesis by auto
  qed
qed

theorem unflatten_row_major_bijection_witness:
  "is_int 0 \<and> is_int 3 \<and> is_int 4 \<and> (1 :: int) \<le> 4 - 0
   \<and> bij_betw (unflatten 4 0 0) {0..<12} ({0..<3} \<times> {0..<4})
   \<and> flat_to_ij 4 0 0 7 = Some (1, 3)
   \<and> unflatten 4 0 0 (2 * 4 + 1) = (2, 1)
   \<and> unflatten 4 0 0 (7 + 1) = (2, 0)"
proof -
  have h: "is_int 0" "is_int 3" "is_int 0" "is_int 4" "(1 :: int) \<le> 4 - 0"
    by (simp_all add: is_int_def INT_MIN_def INT_MAX_def)
  have v: "flat_to_ij 4 0 0 7 = Some (1, 3)" "unflatten 4 0 0 9 = (2, 1)" "unflatten 4 0 0 8 = (2, 0)"
    by code_simp+
  from unflatten_row_major_bijection [OF h] h v show ?thesis by simp
qed

section \<open>The 2-D entry point on a range that fits\<close>

lemma extents_fit:
  assumes "is_int low1" "is_int high1" "is_int low2" "is_int high2"
    and "low1 < high1" "low2 < high2" "(high1 - low1) * (high2 - low2) \<le> INT_MAX"
  shows "cols_2d low2 high2 = high2 - low2"
    and "total_2d low1 high1 low2 high2 = (high1 - low1) * (high2 - low2)"
    and "0 < (high1 - low1) * (high2 - low2)"
proof -
  let ?r = "high1 - low1" and ?c = "high2 - low2"
  have pos: "1 \<le> ?r" "1 \<le> ?c" using assms by simp_all
  have "?r * 1 \<le> ?r * ?c" using pos by (intro mult_left_mono) simp_all
  moreover have "1 * ?c \<le> ?r * ?c" using pos by (intro mult_right_mono) simp_all
  ultimately have le: "?r \<le> INT_MAX" "?c \<le> INT_MAX" using assms(7) by simp_all
  have r: "is_int ?r" and c: "is_int ?c"
    using pos le by (simp_all add: is_int_def INT_MIN_def)
  show "cols_2d low2 high2 = ?c" using c by (simp add: cols_2d_def wrap_int_id)
  show "total_2d low1 high1 low2 high2 = ?r * ?c"
    using r c by (simp add: total_2d_def wrap_int_id wrap_ll_product)
  show "0 < ?r * ?c" using pos by simp
qed

lemma parallel_for_2d_completes:
  fixes f :: "int \<Rightarrow> int \<Rightarrow> 'x option" and numThreads low1 high1 low2 high2 :: int
  defines "n \<equiv> max 1 numThreads"
  defines "ps \<equiv> sm_split_range 0 ((high1 - low1) * (high2 - low2)) n"
  assumes "is_int low1" "is_int high1" "is_int low2" "is_int high2"
    and "low1 < high1" "low2 < high2" "(high1 - low1) * (high2 - low2) \<le> INT_MAX"
    and ok: "\<forall>t. 0 \<le> t \<and> t < n - 1 \<longrightarrow> ok t"
    and f: "\<forall>i j. low1 \<le> i \<and> i < high1 \<and> low2 \<le> j \<and> j < high2 \<longrightarrow> f i j = None"
  shows "parallel_for_2d ok low1 high1 low2 high2 f numThreads =
     \<lparr>caller = map Create [0..n - 2]
          @ map Call (map (unflatten (high2 - low2) low1 low2) (indices (ps ! nat (n - 1))))
          @ map Join [0..n - 2] @ [Report],
      workers = map (\<lambda>t. \<lparr>w_tid = t, w_start = fst (ps ! nat t), w_end = snd (ps ! nat t),
                           w_calls = map (unflatten (high2 - low2) low1 low2) (indices (ps ! nat t)),
                           w_halt = Completed\<rparr>) [0..n - 2],
      exit = Returns\<rparr>"
proof -
  let ?P = "(high1 - low1) * (high2 - low2)" and ?c = "high2 - low2"
  let ?U = "unflatten ?c low1 low2"
  note fit = extents_fit [OF assms(3-9)]
  have n: "1 \<le> n" by (simp add: n_def)
  have c: "1 \<le> ?c" using assms by simp
  have P: "is_int 0" "is_int ?P" "?P - 0 \<le> INT_MAX"
    using fit(3) assms(9) by (simp_all add: is_int_def INT_MIN_def INT_MAX_def)
  have within: "\<And>t. 0 \<le> t \<Longrightarrow> t < n \<Longrightarrow> 0 \<le> fst (ps ! nat t) \<and> snd (ps ! nat t) \<le> ?P"
    unfolding ps_def using P fit(3) n by (intro conjI sm_split_range_within) simp_all
  have cell: "\<And>flat. 0 \<le> flat \<Longrightarrow> flat < ?P \<Longrightarrow> f (fst (?U flat)) (snd (?U flat)) = None"
    using unflatten_in_range [OF assms(3-6) c] f by simp
  have runs: "\<And>t. 0 \<le> t \<Longrightarrow> t < n \<Longrightarrow>
      run_2d f low1 low2 ?c (fst (ps ! nat t)) (snd (ps ! nat t)) = (map ?U (indices (ps ! nat t)), Completed)"
  proof -
    fix t assume t: "0 \<le> t" "t < n"
    from within [OF t] have "\<forall>flat. fst (ps ! nat t) \<le> flat \<and> flat < snd (ps ! nat t) \<longrightarrow>
        f (fst (?U flat)) (snd (?U flat)) = None"
      using cell by force
    then show "run_2d f low1 low2 ?c (fst (ps ! nat t)) (snd (ps ! nat t))
        = (map ?U (indices (ps ! nat t)), Completed)"
      unfolding indices_def using c by (intro run_2d_all_None) simp_all
  qed
  have W: "\<And>t. t \<in> set [0..n - 2] \<Longrightarrow> worker_2d f low1 low2 ?c ps t =
        \<lparr>w_tid = t, w_start = fst (ps ! nat t), w_end = snd (ps ! nat t),
         w_calls = map ?U (indices (ps ! nat t)), w_halt = Completed\<rparr>"
    using runs by (simp add: worker_2d_def sm_thread_entry_2d_def SM_ThreadArg_def)
  show ?thesis
  proof (cases rule: parallel_for_2d_cases [where ?low1.0 = low1 and ?high1.0 = high1
        and ?low2.0 = low2 and ?high2.0 = high2 and ok = ok and f = f and ?n0.0 = numThreads])
    case Empty
    from Empty(1) assms(7,8) have "total_2d low1 high1 low2 high2 \<le> 0" by simp
    with fit(2,3) show ?thesis by linarith
  next
    case Overflow
    from Overflow(3) fit(2) assms(9) show ?thesis by linarith
  next
    case (Failed k)
    with ok show ?thesis by (simp add: n_def)
  next
    case Returned
    have "map (worker_2d f low1 low2 ?c ps) [0..n - 2]
        = map (\<lambda>t. \<lparr>w_tid = t, w_start = fst (ps ! nat t), w_end = snd (ps ! nat t),
             w_calls = map ?U (indices (ps ! nat t)), w_halt = Completed\<rparr>) [0..n - 2]"
      using W by (intro map_cong refl)
    with Returned(8) show ?thesis by (simp add: n_def ps_def fit)
  next
    case (Raised k x)
    from within [of "n - 1"] n have "0 \<le> fst (ps ! nat (n - 1))" "snd (ps ! nat (n - 1)) \<le> ?P" by simp_all
    with Raised(7,8) have "0 \<le> k" "k < ?P" unfolding n_def ps_def fit by simp_all
    from cell [OF this] Raised(9) show ?thesis by (simp add: fit)
  qed
qed

lemma calls_of_Call_map: "calls_of (map (\<lambda>x. Call (g x)) xs) = map g xs"
  by (induction xs) simp_all

section \<open>C3: the 2-D entry point calls the function once for each cell\<close>

text \<open>
  C3, as amended. For every 2-D range with \<open>low1 < high1\<close>, \<open>low2 < high2\<close> and a flattened
  size \<open>(high1 - low1) * (high2 - low2)\<close> of at most \<open>INT_MAX\<close>, a call of the 2-D
  \<open>parallel_for\<close> in which every \<open>pthread_create\<close> succeeds and \<open>body\<close> throws
  on no cell returns, and the calls of \<open>body\<close>, piece after piece of the flattened
  range, are the images of the flat indices \<open>0, \<dots>, rows * cols - 1\<close> under the index
  mapping: every cell of the grid once, and nothing else. In particular
  \<open>parallel_for(0, 3, 0, 4, body, 2)\<close> gives the flat piece \<open>[0, 6)\<close> to one worker and
  runs \<open>[6, 12)\<close> on the calling thread.
\<close>

theorem parallel_for_2d_each_cell_once:
  fixes f :: "int \<Rightarrow> int \<Rightarrow> 'x option"
  assumes "is_int low1" "is_int high1" "is_int low2" "is_int high2"
    and "low1 < high1" "low2 < high2" "(high1 - low1) * (high2 - low2) \<le> INT_MAX"
    and "\<forall>t. 0 \<le> t \<and> t < max 1 numThreads - 1 \<longrightarrow> ok t"
    and "\<forall>i j. low1 \<le> i \<and> i < high1 \<and> low2 \<le> j \<and> j < high2 \<longrightarrow> f i j = None"
  shows "all_calls (parallel_for_2d ok low1 high1 low2 high2 f numThreads)
           = map (unflatten (high2 - low2) low1 low2) [0..(high1 - low1) * (high2 - low2) - 1]
       \<and> distinct (all_calls (parallel_for_2d ok low1 high1 low2 high2 f numThreads))
       \<and> set (all_calls (parallel_for_2d ok low1 high1 low2 high2 f numThreads))
           = {low1..<high1} \<times> {low2..<high2}
       \<and> exit (parallel_for_2d ok low1 high1 low2 high2 f numThreads) = Returns
       \<and> (low1 = 0 \<and> high1 = 3 \<and> low2 = 0 \<and> high2 = 4 \<and> numThreads = 2 \<longrightarrow>
            parallel_for_2d ok low1 high1 low2 high2 f numThreads =
              \<lparr>caller = [Create 0, Call (1, 2), Call (1, 3), Call (2, 0), Call (2, 1), Call (2, 2),
                         Call (2, 3), Join 0, Report],
               workers = [\<lparr>w_tid = 0, w_start = 0, w_end = 6,
                           w_calls = [(0, 0), (0, 1), (0, 2), (0, 3), (1, 0), (1, 1)],
                           w_halt = Completed\<rparr>],
               exit = Returns\<rparr>)"
proof -
  let ?P = "(high1 - low1) * (high2 - low2)" and ?c = "high2 - low2"
  let ?U = "unflatten ?c low1 low2"
  let ?r = "parallel_for_2d ok low1 high1 low2 high2 f numThreads"
  define n where "n = max 1 numThreads"
  define ps where "ps = sm_split_range 0 ?P n"
  have n: "1 \<le> n" by (simp add: n_def)
  note fit = extents_fit [OF assms(1-7)]
  note run = parallel_for_2d_completes [OF assms, folded n_def, folded ps_def]
  have len: "length ps = nat n" by (simp add: ps_def length_sm_split_range)
  have P: "is_int 0" "is_int ?P" "0 < ?P" "?P - 0 \<le> INT_MAX"
    using fit(3) assms(7) by (simp_all add: is_int_def INT_MIN_def INT_MAX_def)
  have "all_calls ?r = concat (map (map ?U \<circ> indices) (map (\<lambda>t. ps ! nat t) [0..n - 2] @ [ps ! nat (n - 1)]))"
    by (simp add: run all_calls_def calls_of_append calls_of_Call_map calls_of_Create calls_of_Join comp_def)
  also have "\<dots> = concat (map (map ?U \<circ> indices) ps)"
    using pieces_split_last [OF len n] by simp
  also have "\<dots> = map ?U (concat (map indices ps))"
    by (simp add: map_concat)
  also have "concat (map indices ps) = [0..?P - 1]"
    unfolding ps_def using P n sm_split_range_cover [of 0 ?P n] by simp
  finally have all: "all_calls ?r = map ?U [0..?P - 1]" .
  have c: "1 \<le> ?c" using assms by simp
  have bij: "bij_betw ?U {0..<?P} ({low1..<high1} \<times> {low2..<high2})"
    using assms(1-4) c by (rule unflatten_bij)
  have s: "{0..?P - 1} = {0..<?P}" by auto
  have dist: "distinct (all_calls ?r)"
    unfolding all using bij by (simp add: distinct_map s bij_betw_def)
  have cells: "set (all_calls ?r) = {low1..<high1} \<times> {low2..<high2}"
    unfolding all using bij by (simp add: s bij_betw_def)
  have inst: "?r =
              \<lparr>caller = [Create 0, Call (1, 2), Call (1, 3), Call (2, 0), Call (2, 1), Call (2, 2),
                         Call (2, 3), Join 0, Report],
               workers = [\<lparr>w_tid = 0, w_start = 0, w_end = 6,
                           w_calls = [(0, 0), (0, 1), (0, 2), (0, 3), (1, 0), (1, 1)],
                           w_halt = Completed\<rparr>],
               exit = Returns\<rparr>"
    if "low1 = 0 \<and> high1 = 3 \<and> low2 = 0 \<and> high2 = 4 \<and> numThreads = 2"
  proof -
    have v: "sm_split_range 0 12 2 = [(0, 6), (6, 12)]" by code_simp
    have u: "[0..0] = [0 :: int]"
      "map (unflatten 4 0 0) [0..5] = [(0, 0), (0, 1), (0, 2), (0, 3), (1, 0), (1, 1)]"
      "map (unflatten 4 0 0) [6..11] = [(1, 2), (1, 3), (2, 0), (2, 1), (2, 2), (2, 3)]"
      by code_simp+
    from that have "n = 2" "ps = [(0, 6), (6, 12)]" by (simp_all add: n_def ps_def v)
    with run u that show ?thesis by (simp add: indices_def)
  qed
  show ?thesis using all dist cells inst by (simp add: run)
qed

theorem parallel_for_2d_each_cell_once_witness:
  "is_int 0 \<and> is_int 3 \<and> is_int 4 \<and> (0 :: int) < 3 \<and> (0 :: int) < 4 \<and> (3 - 0) * (4 - 0) \<le> INT_MAX
   \<and> set (all_calls (parallel_for_2d (\<lambda>_. True) 0 3 0 4 (\<lambda>_ _. None :: unit option) 2))
        = {0..<3} \<times> {0..<4}
   \<and> distinct (all_calls (parallel_for_2d (\<lambda>_. True) 0 3 0 4 (\<lambda>_ _. None :: unit option) 2))
   \<and> parallel_for_2d (\<lambda>_. True) 0 3 0 4 (\<lambda>_ _. None :: unit option) 2 =
       \<lparr>caller = [Create 0, Call (1, 2), Call (1, 3), Call (2, 0), Call (2, 1), Call (2, 2),
                  Call (2, 3), Join 0, Report],
        workers = [\<lparr>w_tid = 0, w_start = 0, w_end = 6,
                    w_calls = [(0, 0), (0, 1), (0, 2), (0, 3), (1, 0), (1, 1)],
                    w_halt = Completed\<rparr>],
        exit = Returns\<rparr>"
proof -
  have h: "is_int 0" "is_int 3" "is_int 0" "is_int 4" "(0 :: int) < 3" "(0 :: int) < 4"
    "(3 - 0) * (4 - 0) \<le> INT_MAX"
    by (simp_all add: is_int_def INT_MIN_def INT_MAX_def)
  from parallel_for_2d_each_cell_once [OF h, of 2 "\<lambda>_. True" "\<lambda>_ _. None :: unit option"] h
  show ?thesis by blast
qed

text \<open>
  The claim as it was written holds for every call on such a range. It fails where
  the user's function throws in a worker: on the grid \<open>[0, 3) \<times> [0, 4)\<close> with two
  threads and a function that throws on \<open>(0, 2)\<close>, the worker stops after three
  calls, the exception is dropped, and the call returns with 9 calls for 12 cells.
  It fails as well where a \<open>pthread_create\<close> fails: the call throws and no cell is
  visited.
\<close>

theorem parallel_for_2d_partial_counterexample:
  "is_int 0 \<and> is_int 3 \<and> is_int 4 \<and> (0 :: int) < 3 \<and> (0 :: int) < 4 \<and> (3 - 0) * (4 - 0) \<le> INT_MAX
   \<and> parallel_for_2d create_succeeds 0 3 0 4 throws_at_0_2 2 =
       \<lparr>caller = [Create 0, Call (1, 2), Call (1, 3), Call (2, 0), Call (2, 1), Call (2, 2),
                  Call (2, 3), Join 0, Report],
        workers = [\<lparr>w_tid = 0, w_start = 0, w_end = 6,
                    w_calls = [(0, 0), (0, 1), (0, 2)], w_halt = Threw ()\<rparr>],
        exit = Returns\<rparr>
   \<and> all_calls (parallel_for_2d create_succeeds 0 3 0 4 throws_at_0_2 2) =
       [(0, 0), (0, 1), (0, 2), (1, 2), (1, 3), (2, 0), (2, 1), (2, 2), (2, 3)]
   \<and> parallel_for_2d create_fails 0 3 0 4 returns_2d 2 =
       \<lparr>caller = [CreateFailed 0], workers = [], exit = Throws StartupFailure\<rparr>
   \<and> all_calls (parallel_for_2d create_fails 0 3 0 4 returns_2d 2) = []"
  by code_simp

section \<open>No division traps in the 2-D entry point\<close>

lemma worker_2d_no_trap:
  assumes "0 < T" "T \<le> INT_MAX" "1 \<le> n" "0 \<le> t" "t < n" "w \<noteq> 0"
  shows "w_halt (worker_2d f low1 low2 w (sm_split_range 0 T n) t) \<noteq> DivTrap"
proof -
  let ?ps = "sm_split_range 0 T n"
  obtain cs h where r: "run_2d f low1 low2 w (fst (?ps ! nat t)) (snd (?ps ! nat t)) = (cs, h)"
    by (cases "run_2d f low1 low2 w (fst (?ps ! nat t)) (snd (?ps ! nat t))")
  have "w = - 1 \<longrightarrow> INT_MIN < fst (?ps ! nat t)"
    using flat_pieces_nonneg [OF assms(1-5)] by (simp add: INT_MIN_def)
  from run_2d_cases [OF r assms(6) this] have "h \<noteq> DivTrap" by auto
  with r show ?thesis by (simp add: worker_2d_def sm_thread_entry_2d_fields)
qed

lemma workers_2d_no_trap:
  assumes "0 < T" "T \<le> INT_MAX" "w \<noteq> 0" "k \<le> max 1 n0 - 1"
  shows "\<forall>x \<in> set (map (worker_2d f low1 low2 w (sm_split_range 0 T (max 1 n0))) [0..k - 1]).
           w_halt x \<noteq> DivTrap"
proof
  fix x assume "x \<in> set (map (worker_2d f low1 low2 w (sm_split_range 0 T (max 1 n0))) [0..k - 1])"
  then obtain t where t: "0 \<le> t" "t \<le> k - 1"
    and x: "x = worker_2d f low1 low2 w (sm_split_range 0 T (max 1 n0)) t" by auto
  have "w_halt (worker_2d f low1 low2 w (sm_split_range 0 T (max 1 n0)) t) \<noteq> DivTrap"
    using assms t by (intro worker_2d_no_trap) simp_all
  with x show "w_halt x \<noteq> DivTrap" by simp
qed

lemma cols_2d_fits:
  assumes "is_int low2" "is_int high2" "low2 < high2" "high2 - low2 \<le> INT_MAX"
  shows "cols_2d low2 high2 = high2 - low2"
proof -
  have "is_int (high2 - low2)" using assms by (simp add: is_int_def INT_MIN_def)
  then show ?thesis by (simp add: cols_2d_def wrap_int_id)
qed

lemma all_calls_empty_run: "all_calls \<lparr>caller = [], workers = [], exit = e\<rparr> = []"
  by (simp add: all_calls_def)

text \<open>
  The 2-D entry point returns before any work when \<open>low2 \<ge> high2\<close>. In every call,
  no thread (worker or calling thread) ends in a division trap; whenever a thread runs
  the index mapping (so a call of \<open>body\<close> is made), \<open>low2 < high2\<close> holds and the
  divisor is not zero; and the divisor is the column width \<open>high2 - low2 \<ge> 1\<close>
  whenever that width fits the type \<open>int\<close>.
\<close>

lemma parallel_for_2d_no_division_by_zero:
  fixes f :: "int \<Rightarrow> int \<Rightarrow> 'x option"
  shows "(low2 \<ge> high2 \<longrightarrow>
            parallel_for_2d ok low1 high1 low2 high2 f numThreads
              = \<lparr>caller = [], workers = [], exit = Returns\<rparr>)
       \<and> exit (parallel_for_2d ok low1 high1 low2 high2 f numThreads) \<noteq> Traps
       \<and> (\<forall>x \<in> set (workers (parallel_for_2d ok low1 high1 low2 high2 f numThreads)).
             w_halt x \<noteq> DivTrap)
       \<and> (all_calls (parallel_for_2d ok low1 high1 low2 high2 f numThreads) \<noteq> [] \<longrightarrow>
             low2 < high2 \<and> cols_2d low2 high2 \<noteq> 0)
       \<and> (all_calls (parallel_for_2d ok low1 high1 low2 high2 f numThreads) \<noteq> []
             \<and> is_int low2 \<and> is_int high2 \<and> high2 - low2 \<le> INT_MAX \<longrightarrow>
             cols_2d low2 high2 = high2 - low2 \<and> 1 \<le> cols_2d low2 high2)"
proof -
  let ?r = "parallel_for_2d ok low1 high1 low2 high2 f numThreads"
  have early: "low2 \<ge> high2 \<longrightarrow> ?r = \<lparr>caller = [], workers = [], exit = Returns\<rparr>"
    by (simp add: parallel_for_2d_def)
  have main: "exit ?r \<noteq> Traps \<and> (\<forall>x \<in> set (workers ?r). w_halt x \<noteq> DivTrap)
      \<and> (all_calls ?r \<noteq> [] \<longrightarrow> low2 < high2 \<and> cols_2d low2 high2 \<noteq> 0)"
  proof (cases rule: parallel_for_2d_cases [where ?low1.0 = low1 and ?high1.0 = high1
        and ?low2.0 = low2 and ?high2.0 = high2 and ok = ok and f = f and ?n0.0 = numThreads])
    case Empty
    then show ?thesis by (simp add: all_calls_empty_run)
  next
    case Overflow
    then show ?thesis by (simp add: all_calls_empty_run)
  next
    case (Failed k)
    have "\<forall>x \<in> set (workers ?r). w_halt x \<noteq> DivTrap"
      unfolding Failed(10) using Failed(3,4,5,7) by (simp only: run.simps) (intro workers_2d_no_trap; simp)
    with Failed(2,5) show ?thesis by (simp add: Failed(10))
  next
    case Returned
    have "\<forall>x \<in> set (workers ?r). w_halt x \<noteq> DivTrap"
      unfolding Returned(8) using Returned(3,4,5)
      workers_2d_no_trap [of "total_2d low1 high1 low2 high2" "cols_2d low2 high2" "max 1 numThreads - 1" numThreads]
      by simp
    with Returned(2,5) show ?thesis by (simp add: Returned(8))
  next
    case (Raised k x)
    have "\<forall>x \<in> set (workers ?r). w_halt x \<noteq> DivTrap"
      unfolding Raised(11) using Raised(3,4,5)
      workers_2d_no_trap [of "total_2d low1 high1 low2 high2" "cols_2d low2 high2" "max 1 numThreads - 1" numThreads]
      by simp
    with Raised(2,5) show ?thesis by (simp add: Raised(11))
  qed
  have width: "all_calls ?r \<noteq> [] \<and> is_int low2 \<and> is_int high2 \<and> high2 - low2 \<le> INT_MAX \<longrightarrow>
      cols_2d low2 high2 = high2 - low2 \<and> 1 \<le> cols_2d low2 high2"
  proof (intro impI, elim conjE)
    assume a: "all_calls ?r \<noteq> []" "is_int low2" "is_int high2" "high2 - low2 \<le> INT_MAX"
    with main have "low2 < high2" by simp
    with a have "cols_2d low2 high2 = high2 - low2" by (intro cols_2d_fits)
    with \<open>low2 < high2\<close> show "cols_2d low2 high2 = high2 - low2 \<and> 1 \<le> cols_2d low2 high2" by simp
  qed
  from early main width show ?thesis by blast
qed

lemma parallel_for_2d_no_division_by_zero_example:
  "all_calls (parallel_for_2d (\<lambda>_. True) 0 3 0 4 (\<lambda>_ _. None :: unit option) 2) \<noteq> []
   \<and> is_int 0 \<and> is_int 4 \<and> 4 - 0 \<le> INT_MAX
   \<and> cols_2d 0 4 = 4 \<and> (1 :: int) \<le> cols_2d 0 4
   \<and> exit (parallel_for_2d (\<lambda>_. True) 0 3 0 4 (\<lambda>_ _. None :: unit option) 2) \<noteq> Traps
   \<and> parallel_for_2d (\<lambda>_. True) 0 3 4 4 (\<lambda>_ _. None :: unit option) 2
        = \<lparr>caller = [], workers = [], exit = Returns\<rparr>"
proof -
  have h: "all_calls (parallel_for_2d (\<lambda>_. True) 0 3 0 4 (\<lambda>_ _. None :: unit option) 2) \<noteq> []"
    "is_int 0" "is_int 4" "4 - 0 \<le> INT_MAX"
    by code_simp+
  from parallel_for_2d_no_division_by_zero [of 4 0 "\<lambda>_. True" 0 3 "\<lambda>_ _. None :: unit option" 2] h
  have a: "cols_2d 0 4 = 4" "(1 :: int) \<le> cols_2d 0 4"
    "exit (parallel_for_2d (\<lambda>_. True) 0 3 0 4 (\<lambda>_ _. None :: unit option) 2) \<noteq> Traps"
    by simp_all
  from parallel_for_2d_no_division_by_zero [of 4 4 "\<lambda>_. True" 0 3 "\<lambda>_ _. None :: unit option" 2]
  have b: "parallel_for_2d (\<lambda>_. True) 0 3 4 4 (\<lambda>_ _. None :: unit option) 2
        = \<lparr>caller = [], workers = [], exit = Returns\<rparr>" by simp
  from h a b show ?thesis by blast
qed

text \<open>
  A divisor below 1 on non-empty dimensions is the wrapped difference of a column
  width beyond \<open>INT_MAX\<close>, so the flattened size of such a range exceeds \<open>INT_MAX\<close>.
\<close>

lemma negative_width_is_oversize:
  assumes "is_int low1" "is_int high1" "is_int low2" "is_int high2"
    and "low1 < high1" "low2 < high2" "cols_2d low2 high2 < 1"
  shows "INT_MAX < (high1 - low1) * (high2 - low2)"
proof -
  have "\<not> high2 - low2 \<le> INT_MAX"
  proof
    assume "high2 - low2 \<le> INT_MAX"
    with assms(3,4,6) have "cols_2d low2 high2 = high2 - low2" by (intro cols_2d_fits)
    with assms(6,7) show False by simp
  qed
  then have c: "INT_MAX < high2 - low2" by simp
  have "1 * (high2 - low2) \<le> (high1 - low1) * (high2 - low2)"
    using assms(5,6) by (intro mult_right_mono) simp_all
  with c show ?thesis by simp
qed

section \<open>C10: the divisor of the 2-D entry point\<close>

text \<open>
  C10 says that whenever the index mapping of the 2-D entry point runs, in a worker
  or on the calling thread, \<open>cols \<ge> 1\<close> holds, so that no division by zero can be
  reached. The entry point subtracts \<open>high2 - low2\<close> in \<open>int\<close> before it converts to
  \<open>long long\<close>, so a column width beyond \<open>INT_MAX\<close> wraps; the check of the
  flattened size then sees the wrapped values and lets the call through. On the grid
  from \<open>INT_MIN\<close> to \<open>INT_MAX\<close> in both dimensions, whose flattened size is far
  beyond \<open>INT_MAX\<close>, the call runs the mapping with \<open>cols = -1\<close>, makes one call of
  \<open>body\<close> and returns.
\<close>

theorem parallel_for_2d_negative_width_evaluation:
  "is_int INT_MIN \<and> is_int INT_MAX \<and> INT_MIN < INT_MAX
   \<and> INT_MAX < (INT_MAX - INT_MIN) * (INT_MAX - INT_MIN)
   \<and> all_calls (parallel_for_2d create_succeeds INT_MIN INT_MAX INT_MIN INT_MAX returns_2d 1)
        = [(INT_MIN, INT_MIN)]
   \<and> exit (parallel_for_2d create_succeeds INT_MIN INT_MAX INT_MIN INT_MAX returns_2d 1) = Returns
   \<and> cols_2d INT_MIN INT_MAX = - 1"
  by code_simp

section \<open>C5: a flattened size beyond \<open>INT_MAX\<close>\<close>

text \<open>
  Where both extents fit the type \<open>int\<close> and their product exceeds \<open>INT_MAX\<close>, the
  call throws before any event.
\<close>

lemma parallel_for_2d_overflow_detected:
  fixes f :: "int \<Rightarrow> int \<Rightarrow> 'x option"
  assumes "is_int low1" "is_int high1" "is_int low2" "is_int high2"
    and "low1 < high1" "low2 < high2" "high1 - low1 \<le> INT_MAX" "high2 - low2 \<le> INT_MAX"
    and "INT_MAX < (high1 - low1) * (high2 - low2)"
  shows "parallel_for_2d ok low1 high1 low2 high2 f numThreads
           = \<lparr>caller = [], workers = [], exit = Throws OverflowError\<rparr>"
proof -
  have r: "is_int (high1 - low1)" and c: "is_int (high2 - low2)"
    using assms by (simp_all add: is_int_def INT_MIN_def)
  then have "total_2d low1 high1 low2 high2 = (high1 - low1) * (high2 - low2)"
    by (simp add: total_2d_def wrap_int_id wrap_ll_product)
  with assms(9) have T: "INT_MAX < total_2d low1 high1 low2 high2" by simp
  then have "\<not> total_2d low1 high1 low2 high2 \<le> 0" by (simp add: INT_MAX_def)
  with T assms(5,6) show ?thesis
    by (simp add: parallel_for_2d_def Let_def total_2d_def [symmetric])
qed

text \<open>
  C5 says that every 2-D call with both dimensions non-empty whose flattened size
  \<open>rows * cols\<close>, computed without wrapping, exceeds \<open>INT_MAX\<close> fails with
  OverflowError before any worker is spawned and before any call of \<open>body\<close>. The
  entry point converts to \<open>long long\<close> only after subtracting in \<open>int\<close>, so an
  extent beyond \<open>INT_MAX\<close> wraps before the check. On the grid from \<open>INT_MIN\<close> to
  \<open>INT_MAX\<close> in both dimensions the call makes one call of \<open>body\<close> and returns; on
  the rows from \<open>INT_MIN\<close> to \<open>INT_MAX\<close> and one column it returns at once. Neither
  call throws.
\<close>

theorem parallel_for_2d_wide_extent_evaluation:
  "INT_MIN < INT_MAX \<and> INT_MAX < (INT_MAX - INT_MIN) * (INT_MAX - INT_MIN)
   \<and> parallel_for_2d create_succeeds INT_MIN INT_MAX INT_MIN INT_MAX returns_2d 1
        = \<lparr>caller = [Call (INT_MIN, INT_MIN), Report], workers = [], exit = Returns\<rparr>
   \<and> (0 :: int) < 1 \<and> INT_MAX < (INT_MAX - INT_MIN) * (1 - 0)
   \<and> parallel_for_2d create_succeeds INT_MIN INT_MAX 0 1 returns_2d 1
        = \<lparr>caller = [], workers = [], exit = Returns\<rparr>"
  by code_simp

section \<open>The three ways a 1-D call that starts can end\<close>

lemma calls_of_failed_spawn:
  "calls_of (map Create ts @ CreateFailed k # map Join ts') = []"
  by (simp add: calls_of_append calls_of_Create calls_of_Join)

lemma first_failure_unique:
  fixes k k' :: int
  assumes "\<not> ok k" "\<forall>j. 0 \<le> j \<and> j < k \<longrightarrow> ok j" "0 \<le> k"
    and "\<not> ok k'" "\<forall>j. 0 \<le> j \<and> j < k' \<longrightarrow> ok j" "0 \<le> k'"
  shows "k' = k"
proof (rule ccontr)
  assume "k' \<noteq> k"
  then consider "k' < k" | "k < k'" by linarith
  then show False
  proof cases
    case 1
    with assms(2,4,6) show False by simp
  next
    case 2
    with assms(1,3,5) show False by simp
  qed
qed

text \<open>What a worker of the 1-D entry point does with its piece.\<close>

lemma worker_1d_cases:
  fixes f :: "int \<Rightarrow> 'x option" and t s e :: int
  defines "x \<equiv> sm_thread_entry_1d t (SM_ThreadArg f s e)"
  shows "w_tid x = t \<and> w_start x = s \<and> w_end x = e \<and>
    ((w_halt x = Completed \<and> w_calls x = [s..e - 1] \<and> (\<forall>i. s \<le> i \<and> i < e \<longrightarrow> f i = None))
     \<or> (\<exists>k y. w_halt x = Threw y \<and> s \<le> k \<and> k < e \<and> w_calls x = [s..k] \<and> f k = Some y
            \<and> (\<forall>i. s \<le> i \<and> i < k \<longrightarrow> f i = None)))"
proof -
  obtain cs h where r: "run_1d f s e = (cs, h)" by (cases "run_1d f s e")
  from run_1d_cases [OF r] r show ?thesis
    by (simp add: x_def sm_thread_entry_1d_fields)
qed

lemma worker_1d_prefix:
  "\<exists>k. w_calls (sm_thread_entry_1d t (SM_ThreadArg f s e)) = [s..k]"
  using worker_1d_cases [of t f s e] by blast

lemma worker_1d_caught:
  assumes "i \<in> set (w_calls (sm_thread_entry_1d t (SM_ThreadArg f s e)))" "f i = Some y"
  shows "w_halt (sm_thread_entry_1d t (SM_ThreadArg f s e)) = Threw y"
proof -
  let ?x = "sm_thread_entry_1d t (SM_ThreadArg f s e)"
  from worker_1d_cases [of t f s e] consider
    (Done) "w_calls ?x = [s..e - 1]" "\<forall>i. s \<le> i \<and> i < e \<longrightarrow> f i = None"
  | (Caught) k y' where "w_halt ?x = Threw y'" "w_calls ?x = [s..k]" "f k = Some y'"
      "\<forall>i. s \<le> i \<and> i < k \<longrightarrow> f i = None"
    by blast
  then show ?thesis
  proof cases
    case Done
    with assms show ?thesis by simp
  next
    case (Caught k y')
    with assms have "s \<le> i" "i \<le> k" by simp_all
    with Caught(4) assms(2) have "i = k" by (cases "i < k") simp_all
    with Caught(1,3) assms(2) show ?thesis by simp
  qed
qed

lemma parallel_for_startup_failure:
  fixes f :: "int \<Rightarrow> 'x option"
  assumes "low < high" "0 \<le> k" "k < max 1 n0 - 1" "\<not> ok k" "\<forall>j. 0 \<le> j \<and> j < k \<longrightarrow> ok j"
  shows "parallel_for ok low high f n0 =
         \<lparr>caller = map Create [0..k - 1] @ CreateFailed k # map Join [0..k - 1],
          workers = map (\<lambda>t. sm_thread_entry_1d t
                      (SM_ThreadArg f (fst (sm_split_range low high (max 1 n0) ! nat t))
                                      (snd (sm_split_range low high (max 1 n0) ! nat t)))) [0..k - 1],
          exit = Throws StartupFailure\<rparr>"
  using assms(1)
proof (cases rule: parallel_for_cases [where ok = ok and f = f and ?n0.0 = n0])
  case (Failed k')
  from first_failure_unique [OF assms(4,5,2) Failed(3,4,1)] Failed(5) show ?thesis by simp
next
  case Returned
  with assms show ?thesis by simp
next
  case (Raised k' x)
  with assms show ?thesis by simp
qed

lemma parallel_for_returns:
  fixes f :: "int \<Rightarrow> 'x option"
  assumes "low < high" "\<forall>j. 0 \<le> j \<and> j < max 1 n0 - 1 \<longrightarrow> ok j"
    and "\<forall>i. fst (sm_split_range low high (max 1 n0) ! nat (max 1 n0 - 1)) \<le> i
          \<and> i < snd (sm_split_range low high (max 1 n0) ! nat (max 1 n0 - 1)) \<longrightarrow> f i = None"
  shows "parallel_for ok low high f n0 =
         \<lparr>caller = map Create [0..max 1 n0 - 2]
            @ map Call (indices (sm_split_range low high (max 1 n0) ! nat (max 1 n0 - 1)))
            @ map Join [0..max 1 n0 - 2] @ [Report],
          workers = map (\<lambda>t. sm_thread_entry_1d t
                      (SM_ThreadArg f (fst (sm_split_range low high (max 1 n0) ! nat t))
                                      (snd (sm_split_range low high (max 1 n0) ! nat t)))) [0..max 1 n0 - 2],
          exit = Returns\<rparr>"
  using assms(1)
proof (cases rule: parallel_for_cases [where ok = ok and f = f and ?n0.0 = n0])
  case (Failed k')
  with assms show ?thesis by simp
next
  case Returned
  then show ?thesis by simp
next
  case (Raised k' x)
  with assms(3) show ?thesis by simp
qed

lemma parallel_for_raises:
  fixes f :: "int \<Rightarrow> 'x option"
  assumes "low < high" "\<forall>j. 0 \<le> j \<and> j < max 1 n0 - 1 \<longrightarrow> ok j"
    and "fst (sm_split_range low high (max 1 n0) ! nat (max 1 n0 - 1)) \<le> k"
      "k < snd (sm_split_range low high (max 1 n0) ! nat (max 1 n0 - 1))"
      "f k = Some x"
      "\<forall>i. fst (sm_split_range low high (max 1 n0) ! nat (max 1 n0 - 1)) \<le> i \<and> i < k \<longrightarrow> f i = None"
  shows "parallel_for ok low high f n0 =
         \<lparr>caller = map Create [0..max 1 n0 - 2]
            @ map Call [fst (sm_split_range low high (max 1 n0) ! nat (max 1 n0 - 1))..k],
          workers = map (\<lambda>t. sm_thread_entry_1d t
                      (SM_ThreadArg f (fst (sm_split_range low high (max 1 n0) ! nat t))
                                      (snd (sm_split_range low high (max 1 n0) ! nat t)))) [0..max 1 n0 - 2],
          exit = Throws (CallbackFailure x)\<rparr>"
  using assms(1)
proof (cases rule: parallel_for_cases [where ok = ok and f = f and ?n0.0 = n0])
  case (Failed k')
  with assms show ?thesis by simp
next
  case Returned
  with assms(3-5) show ?thesis by simp
next
  case (Raised k' x')
  let ?s = "fst (sm_split_range low high (max 1 n0) ! nat (max 1 n0 - 1))"
  have "k' = k"
  proof (rule ccontr)
    assume "k' \<noteq> k"
    then consider "k' < k" | "k < k'" by linarith
    then show False
    proof cases
      case 1
      with assms(6) Raised(2,4) show False by simp
    next
      case 2
      with assms(3,5) Raised(5) show False by simp
    qed
  qed
  with Raised(4,6) assms(5) show ?thesis by simp
qed

section \<open>The three ways a 2-D call that starts can end\<close>

text \<open>What a worker of the 2-D entry point does with its piece of the flattened range.\<close>

lemma worker_2d_cases:
  fixes f :: "int \<Rightarrow> int \<Rightarrow> 'x option" and t T n w low1 low2 :: int
  defines "x \<equiv> worker_2d f low1 low2 w (sm_split_range 0 T n) t"
    and "s \<equiv> fst (sm_split_range 0 T n ! nat t)"
    and "e \<equiv> snd (sm_split_range 0 T n ! nat t)"
  assumes "0 < T" "T \<le> INT_MAX" "1 \<le> n" "0 \<le> t" "t < n" "w \<noteq> 0"
  shows "w_tid x = t \<and> w_start x = s \<and> w_end x = e \<and>
    ((w_halt x = Completed \<and> w_calls x = map (unflatten w low1 low2) [s..e - 1]
        \<and> (\<forall>flat. s \<le> flat \<and> flat < e \<longrightarrow>
              f (fst (unflatten w low1 low2 flat)) (snd (unflatten w low1 low2 flat)) = None))
     \<or> (\<exists>k y. w_halt x = Threw y \<and> s \<le> k \<and> k < e \<and> w_calls x = map (unflatten w low1 low2) [s..k]
            \<and> f (fst (unflatten w low1 low2 k)) (snd (unflatten w low1 low2 k)) = Some y
            \<and> (\<forall>flat. s \<le> flat \<and> flat < k \<longrightarrow>
              f (fst (unflatten w low1 low2 flat)) (snd (unflatten w low1 low2 flat)) = None)))"
proof -
  obtain cs h where r: "run_2d f low1 low2 w s e = (cs, h)" by (cases "run_2d f low1 low2 w s e")
  have "w = - 1 \<longrightarrow> INT_MIN < s"
    unfolding s_def using flat_pieces_nonneg [OF assms(4-8)] by (simp add: INT_MIN_def)
  from run_2d_cases [OF r assms(9) this] r show ?thesis
    by (simp add: x_def worker_2d_def sm_thread_entry_2d_fields s_def [symmetric] e_def [symmetric])
qed

lemma worker_2d_prefix:
  assumes "0 < T" "T \<le> INT_MAX" "1 \<le> n" "0 \<le> t" "t < n" "w \<noteq> 0"
  shows "\<exists>k. w_calls (worker_2d f low1 low2 w (sm_split_range 0 T n) t)
           = map (unflatten w low1 low2) [w_start (worker_2d f low1 low2 w (sm_split_range 0 T n) t)..k]"
  using worker_2d_cases [OF assms, of f low1 low2] by metis

lemma worker_2d_caught:
  assumes "0 < T" "T \<le> INT_MAX" "1 \<le> n" "0 \<le> t" "t < n" "w \<noteq> 0"
    and "(i, j) \<in> set (w_calls (worker_2d f low1 low2 w (sm_split_range 0 T n) t))" "f i j = Some y"
  shows "w_halt (worker_2d f low1 low2 w (sm_split_range 0 T n) t) = Threw y"
proof -
  let ?x = "worker_2d f low1 low2 w (sm_split_range 0 T n) t"
  let ?U = "unflatten w low1 low2"
  let ?s = "fst (sm_split_range 0 T n ! nat t)" and ?e = "snd (sm_split_range 0 T n ! nat t)"
  from worker_2d_cases [OF assms(1-6), of f low1 low2] consider
    (Done) "w_calls ?x = map ?U [?s..?e - 1]"
      "\<forall>flat. ?s \<le> flat \<and> flat < ?e \<longrightarrow> f (fst (?U flat)) (snd (?U flat)) = None"
  | (Caught) k y' where "w_halt ?x = Threw y'" "w_calls ?x = map ?U [?s..k]"
      "f (fst (?U k)) (snd (?U k)) = Some y'"
      "\<forall>flat. ?s \<le> flat \<and> flat < k \<longrightarrow> f (fst (?U flat)) (snd (?U flat)) = None"
    by blast
  then show ?thesis
  proof cases
    case Done
    with assms(7) obtain flat where "?s \<le> flat" "flat < ?e" "?U flat = (i, j)" by auto
    with Done(2) assms(8) show ?thesis by force
  next
    case (Caught k y')
    with assms(7) obtain flat where flat: "?s \<le> flat" "flat \<le> k" "?U flat = (i, j)" by auto
    with Caught(4) assms(8) have "flat = k" by (cases "flat < k") force+
    with flat Caught(1,3) assms(8) show ?thesis by simp
  qed
qed

lemma parallel_for_2d_startup_failure:
  fixes f :: "int \<Rightarrow> int \<Rightarrow> 'x option"
  assumes "low1 < high1" "low2 < high2" "0 < total_2d low1 high1 low2 high2"
    "total_2d low1 high1 low2 high2 \<le> INT_MAX"
    and "0 \<le> k" "k < max 1 n0 - 1" "\<not> ok k" "\<forall>j. 0 \<le> j \<and> j < k \<longrightarrow> ok j"
  shows "parallel_for_2d ok low1 high1 low2 high2 f n0 =
         \<lparr>caller = map Create [0..k - 1] @ CreateFailed k # map Join [0..k - 1],
          workers = map (worker_2d f low1 low2 (cols_2d low2 high2)
                      (sm_split_range 0 (total_2d low1 high1 low2 high2) (max 1 n0))) [0..k - 1],
          exit = Throws StartupFailure\<rparr>"
proof (cases rule: parallel_for_2d_cases [where ?low1.0 = low1 and ?high1.0 = high1
        and ?low2.0 = low2 and ?high2.0 = high2 and ok = ok and f = f and ?n0.0 = n0])
  case Empty
  with assms(1-3) show ?thesis by simp
next
  case Overflow
  with assms(4) show ?thesis by simp
next
  case (Failed k')
  from first_failure_unique [OF assms(7,8,5) Failed(8,9,6)] Failed(10) show ?thesis by simp
next
  case Returned
  with assms show ?thesis by simp
next
  case (Raised k' x)
  with assms show ?thesis by simp
qed

lemma parallel_for_2d_returns:
  fixes f :: "int \<Rightarrow> int \<Rightarrow> 'x option" and n0 low1 high1 low2 high2 :: int
  defines "n \<equiv> max 1 n0"
    and "w \<equiv> cols_2d low2 high2"
  defines "ps \<equiv> sm_split_range 0 (total_2d low1 high1 low2 high2) n"
  assumes "low1 < high1" "low2 < high2" "0 < total_2d low1 high1 low2 high2"
    "total_2d low1 high1 low2 high2 \<le> INT_MAX"
    and "\<forall>j. 0 \<le> j \<and> j < n - 1 \<longrightarrow> ok j"
    and "\<forall>flat. fst (ps ! nat (n - 1)) \<le> flat \<and> flat < snd (ps ! nat (n - 1)) \<longrightarrow>
          f (fst (unflatten w low1 low2 flat)) (snd (unflatten w low1 low2 flat)) = None"
  shows "parallel_for_2d ok low1 high1 low2 high2 f n0 =
         \<lparr>caller = map Create [0..n - 2]
            @ map Call (map (unflatten w low1 low2) (indices (ps ! nat (n - 1))))
            @ map Join [0..n - 2] @ [Report],
          workers = map (worker_2d f low1 low2 w ps) [0..n - 2],
          exit = Returns\<rparr>"
proof (cases rule: parallel_for_2d_cases [where ?low1.0 = low1 and ?high1.0 = high1
        and ?low2.0 = low2 and ?high2.0 = high2 and ok = ok and f = f and ?n0.0 = n0])
  case Empty
  with assms(4-6) show ?thesis by simp
next
  case Overflow
  with assms(7) show ?thesis by simp
next
  case (Failed k')
  with assms(8) show ?thesis by (simp add: n_def)
next
  case Returned
  then show ?thesis by (simp add: n_def w_def ps_def)
next
  case (Raised k' x)
  with assms(9) show ?thesis by (simp add: n_def w_def ps_def)
qed

lemma parallel_for_2d_raises:
  fixes f :: "int \<Rightarrow> int \<Rightarrow> 'x option" and n0 low1 high1 low2 high2 :: int
  defines "n \<equiv> max 1 n0"
    and "w \<equiv> cols_2d low2 high2"
  defines "ps \<equiv> sm_split_range 0 (total_2d low1 high1 low2 high2) n"
  assumes "low1 < high1" "low2 < high2" "0 < total_2d low1 high1 low2 high2"
    "total_2d low1 high1 low2 high2 \<le> INT_MAX"
    and "\<forall>j. 0 \<le> j \<and> j < n - 1 \<longrightarrow> ok j"
    and "fst (ps ! nat (n - 1)) \<le> k" "k < snd (ps ! nat (n - 1))"
      "f (fst (unflatten w low1 low2 k)) (snd (unflatten w low1 low2 k)) = Some x"
      "\<forall>flat. fst (ps ! nat (n - 1)) \<le> flat \<and> flat < k \<longrightarrow>
          f (fst (unflatten w low1 low2 flat)) (snd (unflatten w low1 low2 flat)) = None"
  shows "parallel_for_2d ok low1 high1 low2 high2 f n0 =
         \<lparr>caller = map Create [0..n - 2]
            @ map Call (map (unflatten w low1 low2) [fst (ps ! nat (n - 1))..k]),
          workers = map (worker_2d f low1 low2 w ps) [0..n - 2],
          exit = Throws (CallbackFailure x)\<rparr>"
proof (cases rule: parallel_for_2d_cases [where ?low1.0 = low1 and ?high1.0 = high1
        and ?low2.0 = low2 and ?high2.0 = high2 and ok = ok and f = f and ?n0.0 = n0])
  case Empty
  with assms(4-6) show ?thesis by simp
next
  case Overflow
  with assms(7) show ?thesis by simp
next
  case (Failed k')
  with assms(8) show ?thesis by (simp add: n_def)
next
  case Returned
  with assms(9-11) show ?thesis by (simp add: n_def w_def ps_def)
next
  case (Raised k' x')
  have "k' = k"
  proof (rule ccontr)
    assume "k' \<noteq> k"
    then consider "k' < k" | "k < k'" by linarith
    then show False
    proof cases
      case 1
      with assms(12) Raised(7,9) show False by (simp add: n_def w_def ps_def)
    next
      case 2
      with assms(9,11) Raised(10) show False by (simp add: n_def w_def ps_def)
    qed
  qed
  with Raised(9,11) assms(11) show ?thesis by (simp add: n_def w_def ps_def)
qed

section \<open>Startup failure\<close>

lemma w_tid_workers_1d:
  "map w_tid (map (\<lambda>t. sm_thread_entry_1d t (SM_ThreadArg f (a t) (b t))) ts) = ts"
  by (simp add: comp_def sm_thread_entry_1d_fields)

lemma w_tid_workers_2d:
  "map w_tid (map (worker_2d f low1 low2 w ps) ts) = ts"
  by (simp add: comp_def worker_2d_def sm_thread_entry_2d_fields)

lemma parallel_for_empty:
  "high \<le> low \<Longrightarrow> parallel_for ok low high f n0 = \<lparr>caller = [], workers = [], exit = Returns\<rparr>"
  by (simp add: parallel_for_def)

section \<open>C6: a failed thread creation joins the workers already created\<close>

text \<open>
  C6. In a call of either entry point that reaches its spawning loop, if the
  \<open>pthread_create\<close> number \<open>k\<close> (counted from 0) is the first to fail, the calling
  thread's events are: the \<open>k\<close> successful creations, the failed one, then a
  \<open>pthread_join\<close> of each of the \<open>k\<close> workers created; the workers that exist are
  exactly those \<open>k\<close>; and only then the call ends by throwing the startup failure.
  Conversely, every call that ends with the startup failure has this shape, so the
  failure is never thrown while a created worker is not joined.
\<close>

theorem startup_failure_after_joins:
  fixes f :: "int \<Rightarrow> 'x option" and g :: "int \<Rightarrow> int \<Rightarrow> 'y option"
  shows "(low < high \<and> 0 \<le> k \<and> k < max 1 numThreads - 1 \<and> \<not> ok k \<and> (\<forall>j. 0 \<le> j \<and> j < k \<longrightarrow> ok j) \<longrightarrow>
            caller (parallel_for ok low high f numThreads)
              = map Create [0..k - 1] @ [CreateFailed k] @ map Join [0..k - 1]
          \<and> map w_tid (workers (parallel_for ok low high f numThreads)) = [0..k - 1]
          \<and> exit (parallel_for ok low high f numThreads) = Throws StartupFailure)
       \<and> (low1 < high1 \<and> low2 < high2 \<and> 0 < total_2d low1 high1 low2 high2
            \<and> total_2d low1 high1 low2 high2 \<le> INT_MAX
            \<and> 0 \<le> k \<and> k < max 1 numThreads - 1 \<and> \<not> ok k \<and> (\<forall>j. 0 \<le> j \<and> j < k \<longrightarrow> ok j) \<longrightarrow>
            caller (parallel_for_2d ok low1 high1 low2 high2 g numThreads)
              = map Create [0..k - 1] @ [CreateFailed k] @ map Join [0..k - 1]
          \<and> map w_tid (workers (parallel_for_2d ok low1 high1 low2 high2 g numThreads)) = [0..k - 1]
          \<and> exit (parallel_for_2d ok low1 high1 low2 high2 g numThreads) = Throws StartupFailure)
       \<and> (exit (parallel_for ok low high f numThreads) = Throws StartupFailure \<longrightarrow>
            (\<exists>m. \<not> ok m
               \<and> caller (parallel_for ok low high f numThreads)
                   = map Create [0..m - 1] @ [CreateFailed m] @ map Join [0..m - 1]
               \<and> map w_tid (workers (parallel_for ok low high f numThreads)) = [0..m - 1]))
       \<and> (exit (parallel_for_2d ok low1 high1 low2 high2 g numThreads) = Throws StartupFailure \<longrightarrow>
            (\<exists>m. \<not> ok m
               \<and> caller (parallel_for_2d ok low1 high1 low2 high2 g numThreads)
                   = map Create [0..m - 1] @ [CreateFailed m] @ map Join [0..m - 1]
               \<and> map w_tid (workers (parallel_for_2d ok low1 high1 low2 high2 g numThreads)) = [0..m - 1]))"
proof (intro conjI impI)
  assume a: "low < high \<and> 0 \<le> k \<and> k < max 1 numThreads - 1 \<and> \<not> ok k \<and> (\<forall>j. 0 \<le> j \<and> j < k \<longrightarrow> ok j)"
  then have r: "parallel_for ok low high f numThreads =
         \<lparr>caller = map Create [0..k - 1] @ CreateFailed k # map Join [0..k - 1],
          workers = map (\<lambda>t. sm_thread_entry_1d t
                      (SM_ThreadArg f (fst (sm_split_range low high (max 1 numThreads) ! nat t))
                                      (snd (sm_split_range low high (max 1 numThreads) ! nat t)))) [0..k - 1],
          exit = Throws StartupFailure\<rparr>"
    by (intro parallel_for_startup_failure) simp_all
  show "caller (parallel_for ok low high f numThreads) = map Create [0..k - 1] @ [CreateFailed k] @ map Join [0..k - 1]"
    by (simp add: r)
  show "map w_tid (workers (parallel_for ok low high f numThreads)) = [0..k - 1]"
    unfolding r by (simp only: run.simps w_tid_workers_1d)
  show "exit (parallel_for ok low high f numThreads) = Throws StartupFailure"
    by (simp add: r)
next
  assume a: "low1 < high1 \<and> low2 < high2 \<and> 0 < total_2d low1 high1 low2 high2
            \<and> total_2d low1 high1 low2 high2 \<le> INT_MAX
            \<and> 0 \<le> k \<and> k < max 1 numThreads - 1 \<and> \<not> ok k \<and> (\<forall>j. 0 \<le> j \<and> j < k \<longrightarrow> ok j)"
  then have r: "parallel_for_2d ok low1 high1 low2 high2 g numThreads =
         \<lparr>caller = map Create [0..k - 1] @ CreateFailed k # map Join [0..k - 1],
          workers = map (worker_2d g low1 low2 (cols_2d low2 high2)
                      (sm_split_range 0 (total_2d low1 high1 low2 high2) (max 1 numThreads))) [0..k - 1],
          exit = Throws StartupFailure\<rparr>"
    by (intro parallel_for_2d_startup_failure) simp_all
  show "caller (parallel_for_2d ok low1 high1 low2 high2 g numThreads)
      = map Create [0..k - 1] @ [CreateFailed k] @ map Join [0..k - 1]"
    by (simp add: r)
  show "map w_tid (workers (parallel_for_2d ok low1 high1 low2 high2 g numThreads)) = [0..k - 1]"
    unfolding r by (simp only: run.simps w_tid_workers_2d)
  show "exit (parallel_for_2d ok low1 high1 low2 high2 g numThreads) = Throws StartupFailure"
    by (simp add: r)
next
  let ?r = "parallel_for ok low high f numThreads"
  assume e: "exit ?r = Throws StartupFailure"
  then have "low < high" using parallel_for_empty [of high low ok f numThreads] by (cases "low < high") simp_all
  then show "\<exists>m. \<not> ok m \<and> caller ?r = map Create [0..m - 1] @ [CreateFailed m] @ map Join [0..m - 1]
               \<and> map w_tid (workers ?r) = [0..m - 1]"
  proof (cases rule: parallel_for_cases [where ok = ok and f = f and ?n0.0 = numThreads])
    case (Failed m)
    have "map w_tid (workers ?r) = [0..m - 1]"
      unfolding Failed(5) by (simp only: run.simps w_tid_workers_1d)
    with Failed(3,5) show ?thesis by (intro exI [of _ m]) simp
  next
    case Returned
    with e show ?thesis by simp
  next
    case (Raised m x)
    with e show ?thesis by simp
  qed
next
  let ?r = "parallel_for_2d ok low1 high1 low2 high2 g numThreads"
  assume e: "exit ?r = Throws StartupFailure"
  show "\<exists>m. \<not> ok m \<and> caller ?r = map Create [0..m - 1] @ [CreateFailed m] @ map Join [0..m - 1]
               \<and> map w_tid (workers ?r) = [0..m - 1]"
  proof (cases rule: parallel_for_2d_cases [where ?low1.0 = low1 and ?high1.0 = high1
        and ?low2.0 = low2 and ?high2.0 = high2 and ok = ok and f = g and ?n0.0 = numThreads])
    case Empty
    with e show ?thesis by simp
  next
    case Overflow
    with e show ?thesis by simp
  next
    case (Failed m)
    have "map w_tid (workers ?r) = [0..m - 1]"
      unfolding Failed(10) by (simp only: run.simps w_tid_workers_2d)
    with Failed(8,10) show ?thesis by (intro exI [of _ m]) simp
  next
    case Returned
    with e show ?thesis by simp
  next
    case (Raised m x)
    with e show ?thesis by simp
  qed
qed

theorem startup_failure_after_joins_witness:
  "(0 :: int) < 10 \<and> (0 :: int) \<le> 1 \<and> (1 :: int) < max 1 3 - 1 \<and> \<not> (1 :: int) < 1
   \<and> caller (parallel_for (\<lambda>t. t < 1) 0 10 (\<lambda>_. None :: unit option) 3)
        = [Create 0, CreateFailed 1, Join 0]
   \<and> map w_tid (workers (parallel_for (\<lambda>t. t < 1) 0 10 (\<lambda>_. None :: unit option) 3)) = [0]
   \<and> exit (parallel_for (\<lambda>t. t < 1) 0 10 (\<lambda>_. None :: unit option) 3) = Throws StartupFailure
   \<and> (0 :: int) < 3 \<and> (0 :: int) < 4 \<and> total_2d 0 3 0 4 = 12
   \<and> caller (parallel_for_2d (\<lambda>t. t < 1) 0 3 0 4 (\<lambda>_ _. None :: unit option) 3)
        = [Create 0, CreateFailed 1, Join 0]
   \<and> exit (parallel_for_2d (\<lambda>t. t < 1) 0 3 0 4 (\<lambda>_ _. None :: unit option) 3) = Throws StartupFailure"
proof -
  have T: "total_2d 0 3 0 4 = 12" by code_simp
  have u: "[0..0] = [0 :: int]" by simp
  from startup_failure_after_joins [of 0 10 1 3 "\<lambda>t. t < 1" "\<lambda>_. None :: unit option" 0 3 0 4
      "\<lambda>_ _. None :: unit option"] T u
  show ?thesis by (simp add: INT_MAX_def)
qed

section \<open>Exceptions of the user's function\<close>

lemma parallel_for_callback_failure:
  fixes f :: "int \<Rightarrow> 'x option"
  shows "exit (parallel_for ok low high f numThreads) = Throws (CallbackFailure y)
     \<longleftrightarrow> (\<exists>i. Call i \<in> set (caller (parallel_for ok low high f numThreads)) \<and> f i = Some y)"
proof (cases "low < high")
  case False
  then show ?thesis by (simp add: parallel_for_empty)
next
  case True
  then show ?thesis
  proof (cases rule: parallel_for_cases [where ok = ok and f = f and ?n0.0 = numThreads])
    case (Failed k)
    then show ?thesis by auto
  next
    case Returned
    then show ?thesis by (auto simp add: indices_def)
  next
    case (Raised k x)
    let ?s = "fst (sm_split_range low high (max 1 numThreads) ! nat (max 1 numThreads - 1))"
    have "(\<exists>i. i \<in> set [?s..k] \<and> f i = Some y) \<longleftrightarrow> x = y"
    proof
      assume "\<exists>i. i \<in> set [?s..k] \<and> f i = Some y"
      then obtain i where i: "?s \<le> i" "i \<le> k" "f i = Some y" by auto
      with Raised(5) have "i = k" by (cases "i < k") simp_all
      with i Raised(4) show "x = y" by simp
    next
      assume "x = y"
      with Raised(2,4) show "\<exists>i. i \<in> set [?s..k] \<and> f i = Some y" by (intro exI [of _ k]) simp
    qed
    moreover have "\<And>i. Call i \<in> set (caller (parallel_for ok low high f numThreads)) \<longleftrightarrow> i \<in> set [?s..k]"
      unfolding Raised(6) by auto
    moreover have "exit (parallel_for ok low high f numThreads) = Throws (CallbackFailure x)"
      by (simp add: Raised(6))
    ultimately show ?thesis by simp
  qed
qed

lemma parallel_for_workers_caught:
  fixes f :: "int \<Rightarrow> 'x option"
  assumes "x \<in> set (workers (parallel_for ok low high f numThreads))" "i \<in> set (w_calls x)" "f i = Some y"
  shows "w_halt x = Threw y"
proof (cases "low < high")
  case False
  with assms(1) show ?thesis by (simp add: parallel_for_empty)
next
  case True
  let ?W = "\<lambda>t. sm_thread_entry_1d t
      (SM_ThreadArg f (fst (sm_split_range low high (max 1 numThreads) ! nat t))
                      (snd (sm_split_range low high (max 1 numThreads) ! nat t)))"
  from True have "\<exists>ts. workers (parallel_for ok low high f numThreads) = map ?W ts"
    by (cases rule: parallel_for_cases [where ok = ok and f = f and ?n0.0 = numThreads]) auto
  with assms(1) obtain t where "x = ?W t" by auto
  with assms(2,3) show ?thesis by (simp only: worker_1d_caught)
qed

lemma parallel_for_main_piece_only:
  fixes f f' :: "int \<Rightarrow> 'x option"
  assumes "\<forall>i. fst (sm_split_range low high (max 1 numThreads) ! nat (max 1 numThreads - 1)) \<le> i
          \<and> i < snd (sm_split_range low high (max 1 numThreads) ! nat (max 1 numThreads - 1))
          \<longrightarrow> f' i = f i"
  shows "exit (parallel_for ok low high f' numThreads) = exit (parallel_for ok low high f numThreads)
       \<and> caller (parallel_for ok low high f' numThreads) = caller (parallel_for ok low high f numThreads)"
proof (cases "low < high")
  case False
  then show ?thesis by (simp add: parallel_for_empty)
next
  case True
  then show ?thesis
  proof (cases rule: parallel_for_cases [where ok = ok and f = f and ?n0.0 = numThreads])
    case (Failed k)
    with True have "parallel_for ok low high f' numThreads =
         \<lparr>caller = map Create [0..k - 1] @ CreateFailed k # map Join [0..k - 1],
          workers = map (\<lambda>t. sm_thread_entry_1d t
                      (SM_ThreadArg f' (fst (sm_split_range low high (max 1 numThreads) ! nat t))
                                       (snd (sm_split_range low high (max 1 numThreads) ! nat t)))) [0..k - 1],
          exit = Throws StartupFailure\<rparr>"
      by (intro parallel_for_startup_failure)
    with Failed(5) show ?thesis by simp
  next
    case Returned
    from Returned(2) assms have "\<forall>i. fst (sm_split_range low high (max 1 numThreads) ! nat (max 1 numThreads - 1)) \<le> i
          \<and> i < snd (sm_split_range low high (max 1 numThreads) ! nat (max 1 numThreads - 1))
          \<longrightarrow> f' i = None" by simp
    from parallel_for_returns [OF True Returned(1) this] Returned(3) show ?thesis by simp
  next
    case (Raised k x)
    from Raised(2-5) assms have "f' k = Some x"
      "\<forall>i. fst (sm_split_range low high (max 1 numThreads) ! nat (max 1 numThreads - 1)) \<le> i \<and> i < k
          \<longrightarrow> f' i = None" by simp_all
    from parallel_for_raises [OF True Raised(1,2,3) this] Raised(6) show ?thesis by simp
  qed
qed

lemma parallel_for_2d_callback_failure:
  fixes g :: "int \<Rightarrow> int \<Rightarrow> 'x option"
  shows "exit (parallel_for_2d ok low1 high1 low2 high2 g numThreads) = Throws (CallbackFailure y)
     \<longleftrightarrow> (\<exists>i j. Call (i, j) \<in> set (caller (parallel_for_2d ok low1 high1 low2 high2 g numThreads))
            \<and> g i j = Some y)"
proof (cases rule: parallel_for_2d_cases [where ?low1.0 = low1 and ?high1.0 = high1
        and ?low2.0 = low2 and ?high2.0 = high2 and ok = ok and f = g and ?n0.0 = numThreads])
  case Empty
  then show ?thesis by simp
next
  case Overflow
  then show ?thesis by simp
next
  case (Failed k)
  then show ?thesis by auto
next
  case Returned
  let ?r = "parallel_for_2d ok low1 high1 low2 high2 g numThreads"
  let ?U = "unflatten (cols_2d low2 high2) low1 low2"
  let ?p = "sm_split_range 0 (total_2d low1 high1 low2 high2) (max 1 numThreads) ! nat (max 1 numThreads - 1)"
  have "\<And>ij. Call ij \<in> set (caller ?r) \<longleftrightarrow> ij \<in> ?U ` set (indices ?p)"
    unfolding Returned(8) by auto
  moreover have "\<And>ij. ij \<in> ?U ` set (indices ?p) \<Longrightarrow> g (fst ij) (snd ij) = None"
    using Returned(7) by (auto simp add: indices_def)
  moreover have "exit ?r = Returns" by (simp add: Returned(8))
  ultimately show ?thesis by force
next
  case (Raised k x)
  let ?r = "parallel_for_2d ok low1 high1 low2 high2 g numThreads"
  let ?U = "unflatten (cols_2d low2 high2) low1 low2"
  let ?s = "fst (sm_split_range 0 (total_2d low1 high1 low2 high2) (max 1 numThreads) ! nat (max 1 numThreads - 1))"
  have c: "\<And>ij. Call ij \<in> set (caller ?r) \<longleftrightarrow> ij \<in> ?U ` set [?s..k]"
    unfolding Raised(11) by auto
  have e: "exit ?r = Throws (CallbackFailure x)" by (simp add: Raised(11))
  have "(\<exists>i j. (i, j) \<in> ?U ` set [?s..k] \<and> g i j = Some y) \<longleftrightarrow> x = y"
  proof
    assume "\<exists>i j. (i, j) \<in> ?U ` set [?s..k] \<and> g i j = Some y"
    then obtain i j where ij: "(i, j) \<in> ?U ` set [?s..k]" "g i j = Some y" by blast
    from ij(1) obtain flat where f1: "flat \<in> set [?s..k]" and f2: "(i, j) = ?U flat" by (rule imageE)
    from f2 have "fst (?U flat) = i" "snd (?U flat) = j" by (metis fst_conv, metis snd_conv)
    with ij(2) f1 have flat: "?s \<le> flat" "flat \<le> k" "g (fst (?U flat)) (snd (?U flat)) = Some y"
      by simp_all
    with Raised(10) have "flat = k" by (cases "flat < k") simp_all
    with flat Raised(9) show "x = y" by simp
  next
    assume "x = y"
    with Raised(7,9) have "?U k \<in> ?U ` set [?s..k]" "g (fst (?U k)) (snd (?U k)) = Some y" by simp_all
    then show "\<exists>i j. (i, j) \<in> ?U ` set [?s..k] \<and> g i j = Some y"
      by (intro exI [of _ "fst (?U k)"] exI [of _ "snd (?U k)"]) simp
  qed
  with c e show ?thesis by simp
qed

lemma parallel_for_2d_workers_caught:
  fixes g :: "int \<Rightarrow> int \<Rightarrow> 'x option"
  assumes "x \<in> set (workers (parallel_for_2d ok low1 high1 low2 high2 g numThreads))"
    "(i, j) \<in> set (w_calls x)" "g i j = Some y"
  shows "w_halt x = Threw y"
proof -
  let ?T = "total_2d low1 high1 low2 high2" and ?w = "cols_2d low2 high2" and ?n = "max 1 numThreads"
  let ?W = "worker_2d g low1 low2 ?w (sm_split_range 0 ?T ?n)"
  have "workers (parallel_for_2d ok low1 high1 low2 high2 g numThreads) = []
      \<or> (0 < ?T \<and> ?T \<le> INT_MAX \<and> ?w \<noteq> 0 \<and>
           (\<exists>m. m \<le> ?n - 1 \<and> workers (parallel_for_2d ok low1 high1 low2 high2 g numThreads) = map ?W [0..m - 1]))"
  proof (cases rule: parallel_for_2d_cases [where ?low1.0 = low1 and ?high1.0 = high1
        and ?low2.0 = low2 and ?high2.0 = high2 and ok = ok and f = g and ?n0.0 = numThreads])
    case Empty
    then show ?thesis by simp
  next
    case Overflow
    then show ?thesis by simp
  next
    case (Failed k)
    then show ?thesis by (intro disjI2 conjI exI [of _ k]) simp_all
  next
    case Returned
    then show ?thesis by (intro disjI2 conjI exI [of _ "?n - 1"]) simp_all
  next
    case (Raised k x)
    then show ?thesis by (intro disjI2 conjI exI [of _ "?n - 1"]) simp_all
  qed
  with assms(1) obtain m t where g: "0 < ?T" "?T \<le> INT_MAX" "?w \<noteq> 0"
    and t: "0 \<le> t" "t \<le> m - 1" "m \<le> ?n - 1" "x = ?W t" by auto
  have "w_halt (?W t) = Threw y"
    using g t assms(2,3) by (intro worker_2d_caught [where i = i and j = j]) simp_all
  with t show ?thesis by simp
qed

lemma parallel_for_2d_main_piece_only:
  fixes g g' :: "int \<Rightarrow> int \<Rightarrow> 'x option" and numThreads low1 high1 low2 high2 :: int
  defines "n \<equiv> max 1 numThreads"
    and "w \<equiv> cols_2d low2 high2"
  defines "ps \<equiv> sm_split_range 0 (total_2d low1 high1 low2 high2) n"
  assumes "\<forall>flat. fst (ps ! nat (n - 1)) \<le> flat \<and> flat < snd (ps ! nat (n - 1)) \<longrightarrow>
      g' (fst (unflatten w low1 low2 flat)) (snd (unflatten w low1 low2 flat))
        = g (fst (unflatten w low1 low2 flat)) (snd (unflatten w low1 low2 flat))"
  shows "exit (parallel_for_2d ok low1 high1 low2 high2 g' numThreads)
           = exit (parallel_for_2d ok low1 high1 low2 high2 g numThreads)
       \<and> caller (parallel_for_2d ok low1 high1 low2 high2 g' numThreads)
           = caller (parallel_for_2d ok low1 high1 low2 high2 g numThreads)"
proof (cases rule: parallel_for_2d_cases [where ?low1.0 = low1 and ?high1.0 = high1
        and ?low2.0 = low2 and ?high2.0 = high2 and ok = ok and f = g and ?n0.0 = numThreads])
  case Empty
  then show ?thesis by (auto simp add: parallel_for_2d_def Let_def total_2d_def)
next
  case Overflow
  then show ?thesis by (auto simp add: parallel_for_2d_def Let_def total_2d_def)
next
  case (Failed k)
  from parallel_for_2d_startup_failure [OF Failed(1-4,6-9), of g'] Failed(10) show ?thesis by simp
next
  case Returned
  from Returned(7) assms(4) have "\<forall>flat. fst (ps ! nat (n - 1)) \<le> flat \<and> flat < snd (ps ! nat (n - 1)) \<longrightarrow>
      g' (fst (unflatten w low1 low2 flat)) (snd (unflatten w low1 low2 flat)) = None"
    by (simp add: n_def w_def ps_def)
  from parallel_for_2d_returns [OF Returned(1-4) Returned(6) this [unfolded n_def w_def ps_def]] Returned(8)
  show ?thesis by simp
next
  case (Raised k x)
  from Raised(7-10) assms(4) have
    "g' (fst (unflatten w low1 low2 k)) (snd (unflatten w low1 low2 k)) = Some x"
    "\<forall>flat. fst (ps ! nat (n - 1)) \<le> flat \<and> flat < k \<longrightarrow>
      g' (fst (unflatten w low1 low2 flat)) (snd (unflatten w low1 low2 flat)) = None"
    by (simp_all add: n_def w_def ps_def)
  from parallel_for_2d_raises [OF Raised(1-4) Raised(6-8) this [unfolded n_def w_def ps_def]] Raised(11)
  show ?thesis by simp
qed

section \<open>C7: an exception is dropped in a worker and leaves the call on the calling thread\<close>

text \<open>
  C7. In every call of either entry point: a worker that calls the user's function on
  an index where it throws ends with that exception caught by its own
  \<open>catch (...)\<close>; how the call ends and what the calling thread does are the same for
  any two user functions that agree on the calling thread's own piece (the last one),
  whatever they do on the workers' pieces, so nothing thrown in a worker reaches the
  caller; and the call ends by throwing \<open>y\<close> from the user's function exactly when
  the calling thread itself made a call of the user's function that throws \<open>y\<close>.
\<close>

theorem callback_failure_swallowed_or_propagated:
  fixes f :: "int \<Rightarrow> 'x option" and g :: "int \<Rightarrow> int \<Rightarrow> 'y option"
  shows "(\<forall>x \<in> set (workers (parallel_for ok low high f numThreads)).
            \<forall>i \<in> set (w_calls x). \<forall>y. f i = Some y \<longrightarrow> w_halt x = Threw y)
       \<and> (\<forall>f'. (\<forall>i. fst (sm_split_range low high (max 1 numThreads) ! nat (max 1 numThreads - 1)) \<le> i
                   \<and> i < snd (sm_split_range low high (max 1 numThreads) ! nat (max 1 numThreads - 1))
                   \<longrightarrow> f' i = f i) \<longrightarrow>
              exit (parallel_for ok low high f' numThreads) = exit (parallel_for ok low high f numThreads)
            \<and> caller (parallel_for ok low high f' numThreads) = caller (parallel_for ok low high f numThreads))
       \<and> (\<forall>y. exit (parallel_for ok low high f numThreads) = Throws (CallbackFailure y)
              \<longleftrightarrow> (\<exists>i. Call i \<in> set (caller (parallel_for ok low high f numThreads)) \<and> f i = Some y))
       \<and> (\<forall>x \<in> set (workers (parallel_for_2d ok low1 high1 low2 high2 g numThreads)).
            \<forall>ij \<in> set (w_calls x). \<forall>y. g (fst ij) (snd ij) = Some y \<longrightarrow> w_halt x = Threw y)
       \<and> (\<forall>g'. (\<forall>flat.
                   fst (sm_split_range 0 (total_2d low1 high1 low2 high2) (max 1 numThreads)
                          ! nat (max 1 numThreads - 1)) \<le> flat
                   \<and> flat < snd (sm_split_range 0 (total_2d low1 high1 low2 high2) (max 1 numThreads)
                                  ! nat (max 1 numThreads - 1)) \<longrightarrow>
                   g' (fst (unflatten (cols_2d low2 high2) low1 low2 flat))
                      (snd (unflatten (cols_2d low2 high2) low1 low2 flat))
                     = g (fst (unflatten (cols_2d low2 high2) low1 low2 flat))
                         (snd (unflatten (cols_2d low2 high2) low1 low2 flat))) \<longrightarrow>
              exit (parallel_for_2d ok low1 high1 low2 high2 g' numThreads)
                = exit (parallel_for_2d ok low1 high1 low2 high2 g numThreads)
            \<and> caller (parallel_for_2d ok low1 high1 low2 high2 g' numThreads)
                = caller (parallel_for_2d ok low1 high1 low2 high2 g numThreads))
       \<and> (\<forall>y. exit (parallel_for_2d ok low1 high1 low2 high2 g numThreads) = Throws (CallbackFailure y)
              \<longleftrightarrow> (\<exists>i j. Call (i, j) \<in> set (caller (parallel_for_2d ok low1 high1 low2 high2 g numThreads))
                     \<and> g i j = Some y))"
proof (intro conjI ballI allI impI)
  fix x i y
  assume "x \<in> set (workers (parallel_for ok low high f numThreads))" "i \<in> set (w_calls x)" "f i = Some y"
  then show "w_halt x = Threw y" by (rule parallel_for_workers_caught)
next
  fix f' :: "int \<Rightarrow> 'x option"
  assume a: "\<forall>i. fst (sm_split_range low high (max 1 numThreads) ! nat (max 1 numThreads - 1)) \<le> i
                   \<and> i < snd (sm_split_range low high (max 1 numThreads) ! nat (max 1 numThreads - 1))
                   \<longrightarrow> f' i = f i"
  from parallel_for_main_piece_only [OF a]
  show "exit (parallel_for ok low high f' numThreads) = exit (parallel_for ok low high f numThreads)"
    and "caller (parallel_for ok low high f' numThreads) = caller (parallel_for ok low high f numThreads)"
    by simp_all
next
  fix y
  show "exit (parallel_for ok low high f numThreads) = Throws (CallbackFailure y)
      \<longleftrightarrow> (\<exists>i. Call i \<in> set (caller (parallel_for ok low high f numThreads)) \<and> f i = Some y)"
    by (rule parallel_for_callback_failure)
next
  fix x ij y
  assume "x \<in> set (workers (parallel_for_2d ok low1 high1 low2 high2 g numThreads))"
    "ij \<in> set (w_calls x)" "g (fst ij) (snd ij) = Some y"
  then show "w_halt x = Threw y"
    using parallel_for_2d_workers_caught [where x = x and g = g and i = "fst ij" and j = "snd ij" and y = y]
    by simp
next
  fix g' :: "int \<Rightarrow> int \<Rightarrow> 'y option"
  assume a: "\<forall>flat.
                   fst (sm_split_range 0 (total_2d low1 high1 low2 high2) (max 1 numThreads)
                          ! nat (max 1 numThreads - 1)) \<le> flat
                   \<and> flat < snd (sm_split_range 0 (total_2d low1 high1 low2 high2) (max 1 numThreads)
                                  ! nat (max 1 numThreads - 1)) \<longrightarrow>
                   g' (fst (unflatten (cols_2d low2 high2) low1 low2 flat))
                      (snd (unflatten (cols_2d low2 high2) low1 low2 flat))
                     = g (fst (unflatten (cols_2d low2 high2) low1 low2 flat))
                         (snd (unflatten (cols_2d low2 high2) low1 low2 flat))"
  from parallel_for_2d_main_piece_only [OF a]
  show "exit (parallel_for_2d ok low1 high1 low2 high2 g' numThreads)
                = exit (parallel_for_2d ok low1 high1 low2 high2 g numThreads)"
    and "caller (parallel_for_2d ok low1 high1 low2 high2 g' numThreads)
                = caller (parallel_for_2d ok low1 high1 low2 high2 g numThreads)"
    by simp_all
next
  fix y
  show "exit (parallel_for_2d ok low1 high1 low2 high2 g numThreads) = Throws (CallbackFailure y)
              \<longleftrightarrow> (\<exists>i j. Call (i, j) \<in> set (caller (parallel_for_2d ok low1 high1 low2 high2 g numThreads))
                     \<and> g i j = Some y)"
    by (rule parallel_for_2d_callback_failure)
qed

theorem callback_failure_swallowed_or_propagated_witness:
  "workers (parallel_for (\<lambda>_. True) 0 10 (\<lambda>i. if i = 5 then Some () else None) 3) =
     [\<lparr>w_tid = 0, w_start = 0, w_end = 4, w_calls = [0, 1, 2, 3], w_halt = Completed\<rparr>,
      \<lparr>w_tid = 1, w_start = 4, w_end = 7, w_calls = [4, 5], w_halt = Threw ()\<rparr>]
   \<and> exit (parallel_for (\<lambda>_. True) 0 10 (\<lambda>i. if i = 5 then Some () else None) 3) = Returns
   \<and> caller (parallel_for (\<lambda>_. True) 0 10 (\<lambda>i. if i = 8 then Some () else None) 3)
        = [Create 0, Create 1, Call 7, Call 8]
   \<and> exit (parallel_for (\<lambda>_. True) 0 10 (\<lambda>i. if i = 8 then Some () else None) 3)
        = Throws (CallbackFailure ())"
proof -
  let ?f5 = "\<lambda>i :: int. if i = 5 then Some () else None"
  let ?f8 = "\<lambda>i :: int. if i = 8 then Some () else None"
  let ?r5 = "parallel_for (\<lambda>_. True) 0 10 ?f5 3"
  let ?r8 = "parallel_for (\<lambda>_. True) 0 10 ?f8 3"
  have w: "workers ?r5 =
     [\<lparr>w_tid = 0, w_start = 0, w_end = 4, w_calls = [0, 1, 2, 3], w_halt = Completed\<rparr>,
      \<lparr>w_tid = 1, w_start = 4, w_end = 7, w_calls = [4, 5], w_halt = Threw ()\<rparr>]"
    by code_simp
  have e: "exit ?r5 = Returns" by code_simp
  have c: "caller ?r8 = [Create 0, Create 1, Call 7, Call 8]" by code_simp
  have "\<forall>y. exit ?r8 = Throws (CallbackFailure y) \<longleftrightarrow> (\<exists>i. Call i \<in> set (caller ?r8) \<and> ?f8 i = Some y)"
    using callback_failure_swallowed_or_propagated
      [of "\<lambda>_. True" 0 10 ?f8 3 0 1 0 1 "\<lambda>_ _. None :: unit option"]
    by (elim conjE)
  then have "exit ?r8 = Throws (CallbackFailure ()) \<longleftrightarrow> (\<exists>i. Call i \<in> set (caller ?r8) \<and> ?f8 i = Some ())"
    by (rule spec)
  moreover have "Call 8 \<in> set (caller ?r8) \<and> ?f8 8 = Some ()" by (simp add: c)
  ultimately have "exit ?r8 = Throws (CallbackFailure ())" by blast
  with w e c show ?thesis by blast
qed

section \<open>The order of the calls of one thread\<close>

lemma parallel_for_workers_prefix:
  fixes f :: "int \<Rightarrow> 'x option"
  assumes "x \<in> set (workers (parallel_for ok low high f numThreads))"
  shows "\<exists>k. w_calls x = [w_start x..k]"
proof (cases "low < high")
  case False
  with assms show ?thesis by (simp add: parallel_for_empty)
next
  case True
  let ?W = "\<lambda>t. sm_thread_entry_1d t
      (SM_ThreadArg f (fst (sm_split_range low high (max 1 numThreads) ! nat t))
                      (snd (sm_split_range low high (max 1 numThreads) ! nat t)))"
  from True have "\<exists>ts. workers (parallel_for ok low high f numThreads) = map ?W ts"
    by (cases rule: parallel_for_cases [where ok = ok and f = f and ?n0.0 = numThreads]) auto
  with assms obtain t where "x = ?W t" by auto
  then show ?thesis using worker_1d_prefix by (simp add: sm_thread_entry_1d_fields)
qed

lemma parallel_for_caller_prefix:
  fixes f :: "int \<Rightarrow> 'x option"
  shows "\<exists>k. calls_of (caller (parallel_for ok low high f numThreads))
           = [fst (sm_split_range low high (max 1 numThreads) ! nat (max 1 numThreads - 1))..k]"
proof (cases "low < high")
  case False
  let ?s = "fst (sm_split_range low high (max 1 numThreads) ! nat (max 1 numThreads - 1))"
  from False have "calls_of (caller (parallel_for ok low high f numThreads)) = [?s..?s - 1]"
    by (simp add: parallel_for_empty)
  then show ?thesis ..
next
  case True
  let ?s = "fst (sm_split_range low high (max 1 numThreads) ! nat (max 1 numThreads - 1))"
  from True show ?thesis
  proof (cases rule: parallel_for_cases [where ok = ok and f = f and ?n0.0 = numThreads])
    case (Failed k)
    then have "calls_of (caller (parallel_for ok low high f numThreads)) = [?s..?s - 1]"
      by (simp add: calls_of_failed_spawn)
    then show ?thesis ..
  next
    case Returned
    then have "calls_of (caller (parallel_for ok low high f numThreads))
        = [?s..snd (sm_split_range low high (max 1 numThreads) ! nat (max 1 numThreads - 1)) - 1]"
      by (simp add: calls_of_append calls_of_Create calls_of_Call calls_of_Join indices_def)
    then show ?thesis ..
  next
    case (Raised k x)
    then have "calls_of (caller (parallel_for ok low high f numThreads)) = [?s..k]"
      by (simp add: calls_of_append calls_of_Create calls_of_Call)
    then show ?thesis ..
  qed
qed

lemma parallel_for_2d_workers_prefix:
  fixes g :: "int \<Rightarrow> int \<Rightarrow> 'x option"
  assumes "x \<in> set (workers (parallel_for_2d ok low1 high1 low2 high2 g numThreads))"
  shows "\<exists>k. w_calls x = map (unflatten (cols_2d low2 high2) low1 low2) [w_start x..k]"
proof -
  let ?T = "total_2d low1 high1 low2 high2" and ?w = "cols_2d low2 high2" and ?n = "max 1 numThreads"
  let ?W = "worker_2d g low1 low2 ?w (sm_split_range 0 ?T ?n)"
  have "workers (parallel_for_2d ok low1 high1 low2 high2 g numThreads) = []
      \<or> (0 < ?T \<and> ?T \<le> INT_MAX \<and> ?w \<noteq> 0 \<and>
           (\<exists>m. m \<le> ?n - 1 \<and> workers (parallel_for_2d ok low1 high1 low2 high2 g numThreads) = map ?W [0..m - 1]))"
  proof (cases rule: parallel_for_2d_cases [where ?low1.0 = low1 and ?high1.0 = high1
        and ?low2.0 = low2 and ?high2.0 = high2 and ok = ok and f = g and ?n0.0 = numThreads])
    case Empty
    then show ?thesis by simp
  next
    case Overflow
    then show ?thesis by simp
  next
    case (Failed k)
    then show ?thesis by (intro disjI2 conjI exI [of _ k]) simp_all
  next
    case Returned
    then show ?thesis by (intro disjI2 conjI exI [of _ "?n - 1"]) simp_all
  next
    case (Raised k x)
    then show ?thesis by (intro disjI2 conjI exI [of _ "?n - 1"]) simp_all
  qed
  with assms obtain m t where g: "0 < ?T" "?T \<le> INT_MAX" "?w \<noteq> 0"
    and t: "0 \<le> t" "t \<le> m - 1" "m \<le> ?n - 1" "x = ?W t" by auto
  have "\<exists>k. w_calls (?W t) = map (unflatten ?w low1 low2) [w_start (?W t)..k]"
    using g t by (intro worker_2d_prefix) simp_all
  with t show ?thesis by simp
qed

lemma parallel_for_2d_caller_prefix:
  fixes g :: "int \<Rightarrow> int \<Rightarrow> 'x option"
  shows "\<exists>k. calls_of (caller (parallel_for_2d ok low1 high1 low2 high2 g numThreads))
           = map (unflatten (cols_2d low2 high2) low1 low2)
               [fst (sm_split_range 0 (total_2d low1 high1 low2 high2) (max 1 numThreads)
                       ! nat (max 1 numThreads - 1))..k]"
proof -
  let ?r = "parallel_for_2d ok low1 high1 low2 high2 g numThreads"
  let ?U = "unflatten (cols_2d low2 high2) low1 low2"
  let ?p = "sm_split_range 0 (total_2d low1 high1 low2 high2) (max 1 numThreads) ! nat (max 1 numThreads - 1)"
  show ?thesis
  proof (cases rule: parallel_for_2d_cases [where ?low1.0 = low1 and ?high1.0 = high1
        and ?low2.0 = low2 and ?high2.0 = high2 and ok = ok and f = g and ?n0.0 = numThreads])
    case Empty
    then have "calls_of (caller ?r) = map ?U [fst ?p..fst ?p - 1]" by simp
    then show ?thesis ..
  next
    case Overflow
    then have "calls_of (caller ?r) = map ?U [fst ?p..fst ?p - 1]" by simp
    then show ?thesis ..
  next
    case (Failed k)
    then have "calls_of (caller ?r) = map ?U [fst ?p..fst ?p - 1]"
      by (simp add: calls_of_failed_spawn)
    then show ?thesis ..
  next
    case Returned
    then have "calls_of (caller ?r) = map ?U [fst ?p..snd ?p - 1]"
      by (simp add: calls_of_append calls_of_Create calls_of_Call_map calls_of_Join indices_def comp_def)
    then show ?thesis ..
  next
    case (Raised k x)
    then have "calls_of (caller ?r) = map ?U [fst ?p..k]"
      by (simp add: calls_of_append calls_of_Create calls_of_Call_map comp_def)
    then show ?thesis ..
  qed
qed

section \<open>C9: within a piece the indices are visited in increasing order\<close>

text \<open>
  C9. In every call of the 1-D entry point, the calls made by a worker are the
  indices \<open>start, start + 1, \<dots>\<close> of its piece up to some index, in this order, and
  so are the calls made by the calling thread on the last piece: strictly
  increasing. In every call of the 2-D entry point, the calls made by a worker, and
  those made by the calling thread, are the images under the index mapping of the
  flat indices \<open>start, start + 1, \<dots>\<close> of the piece up to some flat index, in this
  order.
\<close>

theorem calls_within_a_piece_increase:
  fixes f :: "int \<Rightarrow> 'x option" and g :: "int \<Rightarrow> int \<Rightarrow> 'y option"
  shows "(\<forall>x \<in> set (workers (parallel_for ok low high f numThreads)).
            sorted_wrt (<) (w_calls x) \<and> (\<exists>k. w_calls x = [w_start x..k]))
       \<and> sorted_wrt (<) (calls_of (caller (parallel_for ok low high f numThreads)))
       \<and> (\<exists>k. calls_of (caller (parallel_for ok low high f numThreads))
                = [fst (sm_split_range low high (max 1 numThreads) ! nat (max 1 numThreads - 1))..k])
       \<and> (\<forall>x \<in> set (workers (parallel_for_2d ok low1 high1 low2 high2 g numThreads)).
            \<exists>k. w_calls x = map (unflatten (cols_2d low2 high2) low1 low2) [w_start x..k])
       \<and> (\<exists>k. calls_of (caller (parallel_for_2d ok low1 high1 low2 high2 g numThreads))
                = map (unflatten (cols_2d low2 high2) low1 low2)
                    [fst (sm_split_range 0 (total_2d low1 high1 low2 high2) (max 1 numThreads)
                            ! nat (max 1 numThreads - 1))..k])"
proof (intro conjI ballI)
  fix x assume x: "x \<in> set (workers (parallel_for ok low high f numThreads))"
  from parallel_for_workers_prefix [OF x] show "\<exists>k. w_calls x = [w_start x..k]" .
  then show "sorted_wrt (<) (w_calls x)" by auto
next
  from parallel_for_caller_prefix [of ok low high f numThreads]
  show "\<exists>k. calls_of (caller (parallel_for ok low high f numThreads))
                = [fst (sm_split_range low high (max 1 numThreads) ! nat (max 1 numThreads - 1))..k]" .
  then show "sorted_wrt (<) (calls_of (caller (parallel_for ok low high f numThreads)))" by auto
next
  fix x assume "x \<in> set (workers (parallel_for_2d ok low1 high1 low2 high2 g numThreads))"
  then show "\<exists>k. w_calls x = map (unflatten (cols_2d low2 high2) low1 low2) [w_start x..k]"
    by (rule parallel_for_2d_workers_prefix)
next
  show "\<exists>k. calls_of (caller (parallel_for_2d ok low1 high1 low2 high2 g numThreads))
                = map (unflatten (cols_2d low2 high2) low1 low2)
                    [fst (sm_split_range 0 (total_2d low1 high1 low2 high2) (max 1 numThreads)
                            ! nat (max 1 numThreads - 1))..k]"
    by (rule parallel_for_2d_caller_prefix)
qed

theorem calls_within_a_piece_increase_witness:
  "workers (parallel_for (\<lambda>_. True) 0 10 (\<lambda>_. None :: unit option) 3) =
     [\<lparr>w_tid = 0, w_start = 0, w_end = 4, w_calls = [0, 1, 2, 3], w_halt = Completed\<rparr>,
      \<lparr>w_tid = 1, w_start = 4, w_end = 7, w_calls = [4, 5, 6], w_halt = Completed\<rparr>]
   \<and> sorted_wrt (<) [4, 5, 6 :: int]
   \<and> (\<exists>k. [4, 5, 6] = [4..k])
   \<and> workers (parallel_for_2d (\<lambda>_. True) 0 3 0 4 (\<lambda>_ _. None :: unit option) 2) =
     [\<lparr>w_tid = 0, w_start = 0, w_end = 6,
       w_calls = [(0, 0), (0, 1), (0, 2), (0, 3), (1, 0), (1, 1)], w_halt = Completed\<rparr>]
   \<and> (\<exists>k. [(0, 0), (0, 1), (0, 2), (0, 3), (1, 0), (1, 1)] = map (unflatten (cols_2d 0 4) 0 0) [0..k])"
proof -
  let ?r = "parallel_for (\<lambda>_. True) 0 10 (\<lambda>_. None :: unit option) 3"
  let ?r2 = "parallel_for_2d (\<lambda>_. True) 0 3 0 4 (\<lambda>_ _. None :: unit option) 2"
  let ?x = "\<lparr>w_tid = 1, w_start = 4, w_end = 7, w_calls = [4, 5, 6 :: int], w_halt = Completed :: unit halt\<rparr>"
  let ?x2 = "\<lparr>w_tid = 0, w_start = 0, w_end = 6,
       w_calls = [(0, 0), (0, 1), (0, 2), (0, 3), (1, 0), (1, 1) :: int \<times> int], w_halt = Completed :: unit halt\<rparr>"
  have w: "workers ?r =
     [\<lparr>w_tid = 0, w_start = 0, w_end = 4, w_calls = [0, 1, 2, 3], w_halt = Completed\<rparr>, ?x]"
    by code_simp
  have w2: "workers ?r2 = [?x2]" by code_simp
  note t = calls_within_a_piece_increase [of "\<lambda>_. True" 0 10 "\<lambda>_. None :: unit option" 3 0 3 0 4
      "\<lambda>_ _. None :: unit option"]
  from t have "\<forall>x \<in> set (workers ?r). sorted_wrt (<) (w_calls x) \<and> (\<exists>k. w_calls x = [w_start x..k])"
    by (elim conjE)
  moreover have "?x \<in> set (workers ?r)" by (simp add: w)
  ultimately have "sorted_wrt (<) (w_calls ?x) \<and> (\<exists>k. w_calls ?x = [w_start ?x..k])" by (rule bspec)
  then have a: "sorted_wrt (<) [4, 5, 6 :: int]" "\<exists>k. [4, 5, 6] = [4 :: int..k]" by simp_all
  note t2 = calls_within_a_piece_increase [of "\<lambda>_. True" 0 10 "\<lambda>_. None :: unit option" 2 0 3 0 4
      "\<lambda>_ _. None :: unit option"]
  from t2 have "\<forall>x \<in> set (workers ?r2).
      \<exists>k. w_calls x = map (unflatten (cols_2d 0 4) 0 0) [w_start x..k]"
    by (elim conjE)
  moreover have "?x2 \<in> set (workers ?r2)" by (simp add: w2)
  ultimately have "\<exists>k. w_calls ?x2 = map (unflatten (cols_2d 0 4) 0 0) [w_start ?x2..k]" by (rule bspec)
  then have b: "\<exists>k. [(0, 0), (0, 1), (0, 2), (0, 3), (1, 0), (1, 1)] = map (unflatten (cols_2d 0 4) 0 0) [0..k]"
    by simp
  from w w2 a b show ?thesis by blast
qed

end
